theory Spec2Isabelle
  imports Complex_Main "HOL-Library.Word"
begin

section \<open>Shared types\<close>

type_synonym uint64 = "64 word"
type_synonym address = "160 word"

text \<open>
  Go errors. \<open>core.ErrNonceTooLow\<close> and \<open>txpool.ErrReplaceUnderpriced\<close> are the two
  sentinel values the replacement policy tests with \<open>errors.Is\<close>; \<open>ErrorString\<close> is any
  other \<open>errors.New\<close> value and \<open>Wrap\<close> an error with a message of its own that
  unwraps to an inner error (\<open>fmt.Errorf\<close> with \<open>%w\<close>). A nil error is \<open>None\<close>.
\<close>

datatype error =
    ErrNonceTooLow
  | ErrReplaceUnderpriced
  | ErrorString string
  | Wrap string error

fun Error_msg :: "error \<Rightarrow> string" where
  "Error_msg ErrNonceTooLow = ''nonce too low''"
| "Error_msg ErrReplaceUnderpriced = ''replacement transaction underpriced''"
| "Error_msg (ErrorString s) = s"
| "Error_msg (Wrap s e) = s"

fun unwraps_to :: "error \<Rightarrow> error \<Rightarrow> bool" where
  "unwraps_to (Wrap s e) target = (Wrap s e = target \<or> unwraps_to e target)"
| "unwraps_to e target = (e = target)"

definition errors_Is :: "error option \<Rightarrow> error \<Rightarrow> bool" where
  "errors_Is err target = (case err of None \<Rightarrow> False | Some e \<Rightarrow> unwraps_to e target)"

fun strings_HasPrefix :: "string \<Rightarrow> string \<Rightarrow> bool" where
  "strings_HasPrefix s [] = True"
| "strings_HasPrefix [] (c # cs) = False"
| "strings_HasPrefix (d # ds) (c # cs) = (d = c \<and> strings_HasPrefix ds cs)"

fun strings_Contains :: "string \<Rightarrow> string \<Rightarrow> bool" where
  "strings_Contains [] substr = (substr = [])"
| "strings_Contains (d # ds) substr =
     (strings_HasPrefix (d # ds) substr \<or> strings_Contains ds substr)"

text \<open>
  The chain transaction (go-ethereum's dynamic fee transaction): \<open>big.Int\<close> fields are
  unbounded integers, nonce and gas limit are \<open>uint64\<close>.
\<close>

record Transaction =
  tx_ChainID :: int
  tx_Nonce :: uint64
  tx_GasTipCap :: int
  tx_GasFeeCap :: int
  tx_Gas :: uint64
  tx_To :: "address option"
  tx_Value :: int
  tx_Data :: "8 word list"

text \<open>
  Modelled from the spec: \<open>InFlightTx\<close> (package tracker) is not among the sources. The
  spec gives it the chain transaction, the message ids it carries, their enqueue times
  and the submission time; \<open>Nonce()\<close> is the nonce of the embedded transaction.
\<close>

record InFlightTx =
  ift_Transaction :: Transaction
  ift_MsgIDs :: "string list"
  ift_InitialTimes :: "int list"
  ift_SubmittedAt :: int

definition Nonce :: "InFlightTx \<Rightarrow> uint64" where
  "Nonce tx = tx_Nonce (ift_Transaction tx)"

section \<open>The ordered map of the Noncer\<close>

text \<open>
  \<open>skiplist.New(skiplist.Uint64)\<close> is an ordered map with \<open>uint64\<close> keys (an external
  library). It is an association list kept in strictly ascending key order: \<open>Set\<close>
  inserts in place or overwrites the value of a key that is present, \<open>Get\<close> is nil
  (\<open>None\<close>) for an absent key, \<open>Back\<close> is the element with the greatest key, nil when
  the list is empty.
\<close>

type_synonym 'v SkipList = "(uint64 \<times> 'v) list"

definition skiplist_New :: "'v SkipList" where
  "skiplist_New = []"

fun skiplist_Set :: "uint64 \<Rightarrow> 'v \<Rightarrow> 'v SkipList \<Rightarrow> 'v SkipList" where
  "skiplist_Set k v [] = [(k, v)]"
| "skiplist_Set k v ((k', v') # rest) =
     (if k < k' then (k, v) # (k', v') # rest
      else if k = k' then (k, v) # rest
      else (k', v') # skiplist_Set k v rest)"

fun skiplist_Get :: "uint64 \<Rightarrow> 'v SkipList \<Rightarrow> 'v option" where
  "skiplist_Get k [] = None"
| "skiplist_Get k ((k', v') # rest) = (if k = k' then Some v' else skiplist_Get k rest)"

fun skiplist_Remove :: "uint64 \<Rightarrow> 'v SkipList \<Rightarrow> 'v SkipList" where
  "skiplist_Remove k [] = []"
| "skiplist_Remove k ((k', v') # rest) =
     (if k = k' then rest else (k', v') # skiplist_Remove k rest)"

definition skiplist_Back :: "'v SkipList \<Rightarrow> (uint64 \<times> 'v) option" where
  "skiplist_Back l = (if l = [] then None else Some (last l))"

definition skiplist_Len :: "'v SkipList \<Rightarrow> nat" where
  "skiplist_Len l = length l"

definition keys :: "'v SkipList \<Rightarrow> uint64 set" where
  "keys l = fst ` set l"

definition ordered :: "'v SkipList \<Rightarrow> bool" where
  "ordered l = sorted_wrt (<) (map fst l)"

section \<open>Noncer\<close>

text \<open>
  The Noncer's fields. The mutex makes every method atomic, so a method is a function
  from state to state; the chain client is the environment: what a call to it returns is
  an argument of the method that makes the call.
\<close>

record Noncer =
  sender :: address
  acquired :: "uint64 SkipList"
  inFlight :: "InFlightTx SkipList"
  pendingNonceTimeout :: int
  latestConfirmedNonce :: uint64

definition NewNoncer :: "address \<Rightarrow> int \<Rightarrow> Noncer" where
  "NewNoncer addr timeout =
     \<lparr>sender = addr, acquired = skiplist_New, inFlight = skiplist_New,
      pendingNonceTimeout = timeout, latestConfirmedNonce = 0\<rparr>"

text \<open>
  The scan of \<open>Acquire\<close>:
  \<^verbatim>\<open>for i := n.latestConfirmedNonce; i <= back; i++ { if n.inFlight.Get(i) == nil { ... break } }\<close>
  with \<open>i\<close> a \<open>uint64\<close>: \<open>i++\<close> wraps at \<open>2^64\<close>, so with \<open>back = 2^64 - 1\<close> the
  condition never fails and the loop ends only at an absent nonce. The result is
  \<open>Some (Some g)\<close> for the gap found, \<open>Some None\<close> when the loop ends without one and
  \<open>None\<close> when it does not end.
\<close>

partial_function (option) gap_scan :: "InFlightTx SkipList \<Rightarrow> uint64 \<Rightarrow> uint64 \<Rightarrow> uint64 option option" where
  "gap_scan fl i back =
     (if i \<le> back
      then (if skiplist_Get i fl = None then Some (Some i) else gap_scan fl (i + 1) back)
      else Some None)"

text \<open>
  \<open>Acquire\<close>. \<open>pending\<close> is what \<open>PendingNonceAt\<close> returns under the bounded timeout (an
  error when the timeout strikes); it is consulted only when nothing is in flight. The
  result pairs what the caller gets (the error, or the nonce) with the Noncer afterwards.
\<close>

definition Acquire :: "Noncer \<Rightarrow> error + uint64 \<Rightarrow> ((error + uint64) \<times> Noncer) option" where
  "Acquire n pending =
     (case skiplist_Back (inFlight n) of
        Some (k, val) \<Rightarrow>
          (case gap_scan (inFlight n) (latestConfirmedNonce n) (Nonce val) of
             None \<Rightarrow> None
           | Some (Some gap) \<Rightarrow>
               Some (Inr gap, n\<lparr>acquired := skiplist_Set gap gap (acquired n)\<rparr>)
           | Some None \<Rightarrow>
               (let nextNonce = Nonce val + 1
                in Some (Inr nextNonce, n\<lparr>acquired := skiplist_Set nextNonce nextNonce (acquired n)\<rparr>)))
      | None \<Rightarrow>
          (case pending of
             Inl err \<Rightarrow> Some (Inl err, n)
           | Inr nextNonce \<Rightarrow>
               Some (Inr nextNonce, n\<lparr>acquired := skiplist_Set nextNonce nextNonce (acquired n)\<rparr>)))"

definition SetInFlight :: "InFlightTx \<Rightarrow> Noncer \<Rightarrow> Noncer" where
  "SetInFlight tx n =
     n\<lparr>acquired := skiplist_Remove (Nonce tx) (acquired n),
       inFlight := skiplist_Set (Nonce tx) tx (inFlight n)\<rparr>"

definition GetInFlight :: "Noncer \<Rightarrow> uint64 \<Rightarrow> InFlightTx option" where
  "GetInFlight n nonce = skiplist_Get nonce (inFlight n)"

definition InFlight :: "Noncer \<Rightarrow> uint64 \<Rightarrow> bool" where
  "InFlight n nonce = (GetInFlight n nonce \<noteq> None)"

definition RemoveInFlight :: "InFlightTx \<Rightarrow> Noncer \<Rightarrow> Noncer" where
  "RemoveInFlight tx n = n\<lparr>inFlight := skiplist_Remove (Nonce tx) (inFlight n)\<rparr>"

definition Stats :: "Noncer \<Rightarrow> nat \<times> nat" where
  "Stats n = (skiplist_Len (acquired n), skiplist_Len (inFlight n))"

text \<open>
  A write of \<open>latestConfirmedNonce\<close> (by \<open>RefreshLoop\<close> or by
  \<open>MustInitializeExistingTxs\<close>) with the value the chain returned.
\<close>

definition setConfirmed :: "uint64 \<Rightarrow> Noncer \<Rightarrow> Noncer" where
  "setConfirmed c n = n\<lparr>latestConfirmedNonce := c\<rparr>"

text \<open>Sequences of calls on a Noncer; \<open>None\<close> when an \<open>Acquire\<close> of the sequence does not return.\<close>

datatype NoncerCall =
    CallAcquire "error + uint64"
  | CallSetInFlight InFlightTx
  | CallRemoveInFlight InFlightTx
  | CallRefresh uint64

fun call :: "NoncerCall \<Rightarrow> Noncer \<Rightarrow> Noncer option" where
  "call (CallAcquire pending) n = map_option snd (Acquire n pending)"
| "call (CallSetInFlight tx) n = Some (SetInFlight tx n)"
| "call (CallRemoveInFlight tx) n = Some (RemoveInFlight tx n)"
| "call (CallRefresh c) n = Some (setConfirmed c n)"

fun calls :: "NoncerCall list \<Rightarrow> Noncer \<Rightarrow> Noncer option" where
  "calls [] n = Some n"
| "calls (c # cs) n = (case call c n of None \<Rightarrow> None | Some n' \<Rightarrow> calls cs n')"

text \<open>
  The well-formed Noncer states: both lists are in key order and every in-flight
  transaction is stored under its own nonce. Every state the methods reach is one.
\<close>

definition noncer_ok :: "Noncer \<Rightarrow> bool" where
  "noncer_ok n =
     (ordered (acquired n) \<and> ordered (inFlight n) \<and>
      list_all (\<lambda>(k, tx). Nonce tx = k) (inFlight n))"

text \<open>
  The gaps of a state: the nonces of \<open>[latestConfirmedNonce, max(inFlight)]\<close> that are
  absent from \<open>inFlight\<close>.
\<close>

definition gaps :: "Noncer \<Rightarrow> uint64 set" where
  "gaps n =
     {m. latestConfirmedNonce n \<le> m \<and> m \<le> Max (keys (inFlight n)) \<and> m \<notin> keys (inFlight n)}"

definition acquire :: "uint64 \<Rightarrow> Noncer \<Rightarrow> Noncer" where
  "acquire k n = n\<lparr>acquired := skiplist_Set k k (acquired n)\<rparr>"

definition no_overlap :: "Noncer \<Rightarrow> bool" where
  "no_overlap n = (keys (acquired n) \<inter> keys (inFlight n) = {})"

subsection \<open>The refresh loop\<close>

text \<open>
  Time is in nanoseconds, as \<open>time.Duration\<close>. \<open>time.NewTimer(d)\<close> sends one value on
  its channel, at \<open>d\<close> after its creation, and no other unless it is reset: \<open>received\<close>
  says that the value has been taken. \<open>RefreshLoop\<close> blocks in a \<open>select\<close> on
  \<open>ctx.Done()\<close> and the timer's channel: it wakes at the earlier of the cancellation
  (\<open>ctxDoneAt\<close>, \<open>None\<close> for a context that is never cancelled) and the timer's value, and
  takes either case when both are ready (\<open>pickCtx\<close> is the runtime's choice then). With
  neither to come it blocks for ever.
\<close>

definition Second :: int where
  "Second = 1000000000"

record Timer =
  fireAt :: int
  received :: bool

definition time_NewTimer :: "int \<Rightarrow> int \<Rightarrow> Timer" where
  "time_NewTimer now d = \<lparr>fireAt = now + d, received = False\<rparr>"

datatype Wake = WakeCtxDone int | WakeTimer int | Blocked

definition select_RefreshLoop :: "int option \<Rightarrow> Timer \<Rightarrow> bool \<Rightarrow> int \<Rightarrow> Wake" where
  "select_RefreshLoop ctxDoneAt timer pickCtx now =
     (case (map_option (max now) ctxDoneAt,
            if received timer then None else Some (max now (fireAt timer))) of
        (None, None) \<Rightarrow> Blocked
      | (Some c, None) \<Rightarrow> WakeCtxDone c
      | (None, Some f) \<Rightarrow> WakeTimer f
      | (Some c, Some f) \<Rightarrow>
          if c < f then WakeCtxDone c
          else if f < c then WakeTimer f
          else if pickCtx then WakeCtxDone c else WakeTimer f)"

text \<open>
  The loop of \<open>RefreshLoop\<close>. \<open>NonceAt t\<close> is the nonce the chain's \<open>NonceAt\<close> returns to
  a call made at \<open>t\<close> (its error is dropped by the code). The result is the Noncer, the
  times at which \<open>latestConfirmedNonce\<close> was written, and the time of the return
  (\<open>None\<close> when the loop is left blocked).
\<close>

function RefreshLoop_from ::
  "int option \<Rightarrow> bool \<Rightarrow> (int \<Rightarrow> uint64) \<Rightarrow> Timer \<Rightarrow> int \<Rightarrow> Noncer \<Rightarrow> int list \<Rightarrow>
   Noncer \<times> int list \<times> int option" where
  "RefreshLoop_from ctxDoneAt pickCtx NonceAt timer now n refreshed =
     (case select_RefreshLoop ctxDoneAt timer pickCtx now of
        WakeCtxDone t \<Rightarrow> (n, refreshed, Some t)
      | WakeTimer t \<Rightarrow>
          RefreshLoop_from ctxDoneAt pickCtx NonceAt (timer\<lparr>received := True\<rparr>) t
            (n\<lparr>latestConfirmedNonce := NonceAt t\<rparr>) (refreshed @ [t])
      | Blocked \<Rightarrow> (n, refreshed, None))"
  by pat_completeness auto
termination
  by (relation "measure (\<lambda>(ctxDoneAt, pickCtx, NonceAt, timer, now, n, refreshed).
        if received timer then 0 else 1)")
     (auto simp: select_RefreshLoop_def split: option.splits if_splits)

definition RefreshLoop ::
  "int option \<Rightarrow> bool \<Rightarrow> (int \<Rightarrow> uint64) \<Rightarrow> int \<Rightarrow> Noncer \<Rightarrow> Noncer \<times> int list \<times> int option" where
  "RefreshLoop ctxDoneAt pickCtx NonceAt start n =
     RefreshLoop_from ctxDoneAt pickCtx NonceAt (time_NewTimer start (5 * Second)) start n []"

section \<open>Replacement policy\<close>

text \<open>
  Modelled from the spec: \<open>SetNonce\<close> and \<open>BumpGas\<close> (package sender) are not among the
  sources. The spec's gas bump rule is "increase both GasTipCap and GasFeeCap by 15%",
  "multiplied by 1.15 (rounded up)", "preserve all other fields"; the nonce replacement
  changes the nonce alone.
\<close>

definition SetNonce :: "Transaction \<Rightarrow> uint64 \<Rightarrow> Transaction" where
  "SetNonce tx nonce = tx\<lparr>tx_Nonce := nonce\<rparr>"

definition bump15 :: "int \<Rightarrow> int" where
  "bump15 x = - ((- (x * 115)) div 100)"

definition BumpGas :: "Transaction \<Rightarrow> Transaction" where
  "BumpGas tx =
     tx\<lparr>tx_GasTipCap := bump15 (tx_GasTipCap tx), tx_GasFeeCap := bump15 (tx_GasFeeCap tx)\<rparr>"

text \<open>
  The policy holds the factory \<open>nf\<close>; of it \<open>GetNew\<close> uses \<open>GetNextNonce\<close>, which is not
  among the sources: the field is the pair that call returns for a given nonce.
\<close>

record DefaultTxReplacementPolicy =
  nf_GetNextNonce :: "uint64 \<Rightarrow> uint64 \<times> bool"

definition GetNew :: "DefaultTxReplacementPolicy \<Rightarrow> Transaction \<Rightarrow> error option \<Rightarrow> Transaction" where
  "GetNew d tx err =
     (case (if errors_Is err ErrNonceTooLow \<or>
               (case err of None \<Rightarrow> False
                | Some e \<Rightarrow> strings_Contains (Error_msg e) ''nonce too low'')
            then (case nf_GetNextNonce d (tx_Nonce tx) of
                    (newNonce, shouldBumpGas) \<Rightarrow> (SetNonce tx newNonce, shouldBumpGas))
            else (tx, False)) of
        (tx1, shouldBumpGas) \<Rightarrow>
          if shouldBumpGas \<or> errors_Is err ErrReplaceUnderpriced \<or>
             (case err of None \<Rightarrow> False
              | Some e \<Rightarrow> strings_Contains (Error_msg e) ''replacement transaction underpriced'')
          then BumpGas tx1
          else tx1)"

text \<open>What the claims call "err indicates ...": the typed match or the string match.\<close>

definition indicates_nonce_too_low :: "error option \<Rightarrow> bool" where
  "indicates_nonce_too_low err =
     (case err of None \<Rightarrow> False
      | Some e \<Rightarrow> unwraps_to e ErrNonceTooLow \<or> strings_Contains (Error_msg e) ''nonce too low'')"

definition indicates_underpriced :: "error option \<Rightarrow> bool" where
  "indicates_underpriced err =
     (case err of None \<Rightarrow> False
      | Some e \<Rightarrow> unwraps_to e ErrReplaceUnderpriced \<or>
                 strings_Contains (Error_msg e) ''replacement transaction underpriced'')"

text \<open>The replacement the claims describe, in their words.\<close>

definition replacement_spec :: "DefaultTxReplacementPolicy \<Rightarrow> Transaction \<Rightarrow> error option \<Rightarrow> Transaction" where
  "replacement_spec d tx err =
     (let replaceNonce = indicates_nonce_too_low err;
          newNonce = fst (nf_GetNextNonce d (tx_Nonce tx));
          shouldBumpGas = snd (nf_GetNextNonce d (tx_Nonce tx));
          bumpGas = (indicates_underpriced err \<or> (replaceNonce \<and> shouldBumpGas));
          tx1 = (if replaceNonce then SetNonce tx newNonce else tx)
      in if bumpGas then BumpGas tx1 else tx1)"

section \<open>Transactor\<close>

datatype PreconfirmedState =
  StateUnknown | StateQueued | StateBuilding | StateSending | StateInFlight

text \<open>
  Modelled from the spec: the request, the response and its statuses (packages types and
  tracker) are not among the sources. A request has its message id, the call (its
  destination and data) and its creation time; a response has the message ids, their
  times, the transaction, the receipt and the error.
\<close>

record Request =
  MsgID :: string
  req_To :: "address option"
  req_Data :: "8 word list"
  req_Time :: int

record Receipt =
  receipt_Status :: uint64

record Response =
  MsgIDs :: "string list"
  InitialTimes :: "int list"
  resp_Transaction :: "Transaction option"
  resp_Receipt :: "Receipt option"
  resp_Error :: "error option"

datatype Status =
  StatusPending | StatusSuccess | StatusReverted | StatusError | StatusStaleMempool | StatusStaleReceipt

text \<open>
  The configuration fields the transactor's own code reads. Go's \<open>int\<close> and
  \<open>time.Duration\<close> are integers here: the one subtraction on them,
  \<open>TxBatchSize - len(requests)\<close>, stays within 64 bits for every batch size that is not
  negative.
\<close>

record Config =
  TxBatchSize :: int
  TxBatchTimeout :: int
  WaitFullBatchTimeout :: bool
  UseQueueMessageID :: bool
  EmptyQueueDelay :: int

text \<open>
  The transactor: its configuration, the request queue (an external component, of any
  state type), the Noncer that factory, sender and tracker share, what the dispatcher
  was given to dispatch and what the tracker was given to track, in order, and the map
  of preconfirmed states.
\<close>

record 'q TxrV2 =
  cfg :: Config
  requests :: 'q
  noncer :: Noncer
  dispatched :: "Response list"
  tracked :: "Response list"
  preconfirmedStates :: "string \<Rightarrow> PreconfirmedState option"

definition markState :: "PreconfirmedState \<Rightarrow> string list \<Rightarrow> 'q TxrV2 \<Rightarrow> 'q TxrV2" where
  "markState state msgIDs t =
     t\<lparr>preconfirmedStates := fold (\<lambda>msgID m. m(msgID \<mapsto> state)) msgIDs (preconfirmedStates t)\<rparr>"

definition removeStateTracking :: "string list \<Rightarrow> 'q TxrV2 \<Rightarrow> 'q TxrV2" where
  "removeStateTracking msgIDs t =
     t\<lparr>preconfirmedStates := fold (\<lambda>msgID m. m(msgID := None)) msgIDs (preconfirmedStates t)\<rparr>"

text \<open>A Go map read of an absent key gives the zero value, which is \<open>StateUnknown\<close>.\<close>

definition GetPreconfirmedState :: "'q TxrV2 \<Rightarrow> string \<Rightarrow> PreconfirmedState" where
  "GetPreconfirmedState t msgID =
     (case preconfirmedStates t msgID of None \<Rightarrow> StateUnknown | Some state \<Rightarrow> state)"

text \<open>
  \<open>SendTxRequest\<close>. \<open>Validate\<close> (a method of the request, with a pointer receiver) and
  the queue's \<open>Push\<close> are not among the sources: \<open>validate\<close> gives the error and the
  request as validation leaves it, \<open>push\<close> the queue id or the error and the queue
  afterwards.
\<close>

definition SendTxRequest ::
  "(Request \<Rightarrow> error option \<times> Request) \<Rightarrow> (Request \<Rightarrow> 'q \<Rightarrow> (error + string) \<times> 'q) \<Rightarrow>
   'q TxrV2 \<Rightarrow> Request \<Rightarrow> (error + string) \<times> 'q TxrV2" where
  "SendTxRequest validate push t txReq =
     (case validate txReq of
        (Some err, txReq') \<Rightarrow> (Inl err, t)
      | (None, txReq') \<Rightarrow>
          (case push txReq' (requests t) of
             (Inl err, q) \<Rightarrow> (Inl err, t\<lparr>requests := q\<rparr>)
           | (Inr queueID, q) \<Rightarrow>
               (let msgID = (if UseQueueMessageID (cfg t) then queueID else MsgID txReq')
                in (Inr msgID, markState StateQueued [msgID] (t\<lparr>requests := q\<rparr>)))))"

subsection \<open>retrieveBatch\<close>

text \<open>
  One evaluation of the loop's \<open>select\<close>: the time it happens at, the runtime's choice
  when both channels are ready, and what the queue's \<open>ReceiveMany\<close> answers (ids,
  requests, error) to a call with a given maximum, should the loop make one.
\<close>

record Obs =
  obs_at :: int
  obs_pickCtx :: bool
  obs_ReceiveMany :: "int \<Rightarrow> string list \<times> Request list \<times> error option"

datatype Selected = SelCtxDone | SelTimer | SelDefault

definition select_retrieveBatch :: "int option \<Rightarrow> int \<Rightarrow> Obs \<Rightarrow> Selected" where
  "select_retrieveBatch ctxDoneAt timerAt ob =
     (let ctxReady = (case ctxDoneAt of None \<Rightarrow> False | Some c \<Rightarrow> c \<le> obs_at ob);
          timerReady = (timerAt \<le> obs_at ob)
      in if ctxReady \<and> timerReady then (if obs_pickCtx ob then SelCtxDone else SelTimer)
         else if ctxReady then SelCtxDone
         else if timerReady then SelTimer
         else SelDefault)"

text \<open>The conversion \<open>int32(txsRemaining)\<close> keeps the low 32 bits, read as two's complement.\<close>

definition int32 :: "int \<Rightarrow> int" where
  "int32 x = signed_take_bit 31 x"

text \<open>
  The loop over the received requests:
  \<^verbatim>\<open>for i, txReq := range txReqs { if UseQueueMessageID { txReq.MsgID = msgIDs[i] }; requests = append(requests, txReq) }\<close>
  (\<open>batch\<close> is the local \<open>requests\<close> of the source); \<open>None\<close> is the panic of \<open>msgIDs[i]\<close>
  out of range.
\<close>

fun appendReceived :: "bool \<Rightarrow> string list \<Rightarrow> Request list \<Rightarrow> Request list \<Rightarrow> Request list option" where
  "appendReceived useQueueID msgIDs [] batch = Some batch"
| "appendReceived useQueueID msgIDs (txReq # txReqs) batch =
     (if useQueueID
      then (case msgIDs of
              [] \<Rightarrow> None
            | msgID # rest \<Rightarrow> appendReceived useQueueID rest txReqs (batch @ [txReq\<lparr>MsgID := msgID\<rparr>]))
      else appendReceived useQueueID msgIDs txReqs (batch @ [txReq]))"

text \<open>
  How a run of the loop stands after the observations given: still looping with the
  batch gathered so far, returned (through which exit, with which batch, at what
  time), or stopped by the panic.
\<close>

datatype Exit = ExitCtxDone | ExitTimer | ExitFull | ExitFullWaited

datatype Run = Running "Request list" | Returned Exit "Request list" int | Panicked

fun retrieveBatch_loop :: "Config \<Rightarrow> int option \<Rightarrow> int \<Rightarrow> Obs list \<Rightarrow> Request list \<Rightarrow> Run" where
  "retrieveBatch_loop c ctxDoneAt timerAt [] batch = Running batch"
| "retrieveBatch_loop c ctxDoneAt timerAt (ob # obs) batch =
     (case select_retrieveBatch ctxDoneAt timerAt ob of
        SelCtxDone \<Rightarrow> Returned ExitCtxDone [] (obs_at ob)
      | SelTimer \<Rightarrow> Returned ExitTimer batch (obs_at ob)
      | SelDefault \<Rightarrow>
          (let txsRemaining = TxBatchSize c - int (length batch)
           in if txsRemaining = 0
              then (if WaitFullBatchTimeout c
                    then Returned ExitFullWaited batch (max (obs_at ob) timerAt)
                    else Returned ExitFull batch (obs_at ob))
              else (case obs_ReceiveMany ob (int32 txsRemaining) of
                      (msgIDs, txReqs, Some err) \<Rightarrow>
                        retrieveBatch_loop c ctxDoneAt timerAt obs batch
                    | (msgIDs, txReqs, None) \<Rightarrow>
                        (case appendReceived (UseQueueMessageID c) msgIDs txReqs batch of
                           None \<Rightarrow> Panicked
                         | Some batch' \<Rightarrow>
                             retrieveBatch_loop c ctxDoneAt timerAt obs batch'))))"

text \<open>
  \<open>retrieveBatch\<close>, started at \<open>start\<close>: the timer is due at \<open>start + TxBatchTimeout\<close>,
  the batch starts empty (nil).
\<close>

definition retrieveBatch :: "Config \<Rightarrow> int option \<Rightarrow> int \<Rightarrow> Obs list \<Rightarrow> Run" where
  "retrieveBatch c ctxDoneAt start obs =
     retrieveBatch_loop c ctxDoneAt (start + TxBatchTimeout c) obs []"

text \<open>
  The queue's contract for \<open>ReceiveMany(max)\<close>: when it succeeds it gives at most
  \<open>max\<close> requests (none for a \<open>max\<close> below one) and one id for each.
\<close>

definition queue_ok :: "Obs \<Rightarrow> bool" where
  "queue_ok ob =
     (\<forall>n. case obs_ReceiveMany ob n of
             (msgIDs, txReqs, err) \<Rightarrow>
               err = None \<longrightarrow> int (length txReqs) \<le> max 0 n \<and> length msgIDs = length txReqs)"

text \<open>What a return of \<open>retrieveBatch\<close> satisfies, by its exit.\<close>

definition exit_ok :: "Config \<Rightarrow> int option \<Rightarrow> int \<Rightarrow> Exit \<Rightarrow> Request list \<Rightarrow> int \<Rightarrow> bool" where
  "exit_ok c ctxDoneAt timerAt e b t =
     (int (length b) \<le> TxBatchSize c \<and>
      (e = ExitCtxDone \<longrightarrow> b = [] \<and> (\<exists>d. ctxDoneAt = Some d \<and> d \<le> t)) \<and>
      (e = ExitTimer \<longrightarrow> timerAt \<le> t) \<and>
      (e = ExitFull \<longrightarrow> \<not> WaitFullBatchTimeout c \<and> int (length b) = TxBatchSize c) \<and>
      (e = ExitFullWaited \<longrightarrow>
         WaitFullBatchTimeout c \<and> int (length b) = TxBatchSize c \<and> t = timerAt) \<and>
      (WaitFullBatchTimeout c \<and> e \<noteq> ExitCtxDone \<longrightarrow> timerAt \<le> t))"

subsection \<open>fire\<close>

text \<open>
  \<open>fire\<close>. The factory's \<open>BuildTransactionFromRequests\<close>, the sender's
  \<open>SendTransaction\<close> and the response's \<open>Status\<close> are not among the sources: \<open>build\<close>
  and \<open>send\<close> give their results and the Noncer as they leave it (both hold the
  transactor's Noncer), \<open>status\<close> the derived status of a response. \<open>Track\<close> hands the
  response to the tracker. The result is the transactor afterwards and the response as
  \<open>fire\<close> leaves it (it is updated in place).
\<close>

definition deferred_dispatch :: "(Response \<Rightarrow> Status) \<Rightarrow> 'q TxrV2 \<Rightarrow> Response \<Rightarrow> 'q TxrV2 \<times> Response" where
  "deferred_dispatch status t resp =
     (if status resp = StatusError then (t\<lparr>dispatched := dispatched t @ [resp]\<rparr>, resp)
      else (t, resp))"

definition fire_send ::
  "(Response \<Rightarrow> Status) \<Rightarrow> (Transaction option \<Rightarrow> Noncer \<Rightarrow> error option \<times> Noncer) \<Rightarrow>
   'q TxrV2 \<Rightarrow> Response \<Rightarrow> 'q TxrV2 \<times> Response" where
  "fire_send status send t resp =
     (let t1 = markState StateSending (MsgIDs resp) t
      in case send (resp_Transaction resp) (noncer t1) of
           (err, n) \<Rightarrow>
             (let resp1 = resp\<lparr>resp_Error := err\<rparr>; t2 = t1\<lparr>noncer := n\<rparr>
              in if err \<noteq> None then deferred_dispatch status t2 resp1
                 else (let t3 = markState StateInFlight (MsgIDs resp1) t2
                       in deferred_dispatch status (t3\<lparr>tracked := tracked t3 @ [resp1]\<rparr>) resp1)))"

definition fire ::
  "(Response \<Rightarrow> Status) \<Rightarrow> ('m list \<Rightarrow> Noncer \<Rightarrow> (Transaction option \<times> error option) \<times> Noncer) \<Rightarrow>
   (Transaction option \<Rightarrow> Noncer \<Rightarrow> error option \<times> Noncer) \<Rightarrow>
   'q TxrV2 \<Rightarrow> Response \<Rightarrow> bool \<Rightarrow> 'm list \<Rightarrow> 'q TxrV2 \<times> Response" where
  "fire status build send t resp toBuild msgs =
     (if toBuild
      then (let t1 = markState StateBuilding (MsgIDs resp) t
            in case build msgs (noncer t1) of
                 ((tx, err), n) \<Rightarrow>
                   (let resp1 = resp\<lparr>resp_Transaction := tx, resp_Error := err\<rparr>;
                        t2 = t1\<lparr>noncer := n\<rparr>
                    in if err \<noteq> None then deferred_dispatch status t2 resp1
                       else fire_send status send t2 resp1))
      else fire_send status send t resp)"

text \<open>
  What holds of a \<open>fire\<close> that failed, from transactor \<open>t\<close> to the result \<open>res\<close> with
  the response \<open>resp'\<close> and the Noncer \<open>n\<close>: the response is the one returned; it was
  dispatched, once, exactly if its status is \<open>Error\<close>, which it is where every response
  with a non-nil error has that status; nothing was handed to the tracker; the Noncer is
  \<open>n\<close>.
\<close>

definition failed_outcome ::
  "(Response \<Rightarrow> Status) \<Rightarrow> 'q TxrV2 \<Rightarrow> 'q TxrV2 \<times> Response \<Rightarrow> Response \<Rightarrow> Noncer \<Rightarrow> bool" where
  "failed_outcome status t res resp' n =
     (snd res = resp' \<and>
      dispatched (fst res) =
        (if status resp' = StatusError then dispatched t @ [resp'] else dispatched t) \<and>
      ((\<forall>r. resp_Error r \<noteq> None \<longrightarrow> status r = StatusError) \<longrightarrow>
         status resp' = StatusError \<and> dispatched (fst res) = dispatched t @ [resp']) \<and>
      tracked (fst res) = tracked t \<and>
      noncer (fst res) = n)"

section \<open>Example values\<close>

text \<open>An in-flight transaction with a given nonce, and a Noncer by the keys of its two lists.\<close>

definition inFlightTx :: "uint64 \<Rightarrow> InFlightTx" where
  "inFlightTx k =
     \<lparr>ift_Transaction =
        \<lparr>tx_ChainID = 1, tx_Nonce = k, tx_GasTipCap = 1000, tx_GasFeeCap = 2000,
         tx_Gas = 21000, tx_To = None, tx_Value = 0, tx_Data = []\<rparr>,
      ift_MsgIDs = [], ift_InitialTimes = [], ift_SubmittedAt = 0\<rparr>"

definition noncer_of :: "uint64 list \<Rightarrow> uint64 list \<Rightarrow> uint64 \<Rightarrow> Noncer" where
  "noncer_of acq fl c =
     \<lparr>sender = 0, acquired = map (\<lambda>k. (k, k)) acq, inFlight = map (\<lambda>k. (k, inFlightTx k)) fl,
      pendingNonceTimeout = 0, latestConfirmedNonce = c\<rparr>"

text \<open>A transaction and a replacement policy.\<close>

definition tx0 :: Transaction where
  "tx0 = \<lparr>tx_ChainID = 1, tx_Nonce = 10, tx_GasTipCap = 1001, tx_GasFeeCap = 2000,
          tx_Gas = 21000, tx_To = None, tx_Value = 0, tx_Data = []\<rparr>"

definition policy0 :: DefaultTxReplacementPolicy where
  "policy0 = \<lparr>nf_GetNextNonce = (\<lambda>cur. if cur = 10 then (12, False) else (cur, True))\<rparr>"

text \<open>
  A configuration, a transactor over an in-memory queue, a request, a validation, a
  push, a response, a status, two builds that acquire a nonce (one fails to sign) and a
  send that fails.
\<close>

definition cfg0 :: Config where
  "cfg0 = \<lparr>TxBatchSize = 2, TxBatchTimeout = 100, WaitFullBatchTimeout = False,
           UseQueueMessageID = False, EmptyQueueDelay = 0\<rparr>"

definition txr0 :: "Request list TxrV2" where
  "txr0 = \<lparr>cfg = cfg0, requests = [], noncer = noncer_of [] [] 0, dispatched = [], tracked = [],
           preconfirmedStates = [''a'' \<mapsto> StateQueued, ''b'' \<mapsto> StateInFlight]\<rparr>"

definition req0 :: Request where
  "req0 = \<lparr>MsgID = ''m1'', req_To = Some 1, req_Data = [], req_Time = 0\<rparr>"

definition validate0 :: "Request \<Rightarrow> error option \<times> Request" where
  "validate0 r = (if req_To r = None then (Some (ErrorString ''no destination''), r) else (None, r))"

definition push0 :: "Request \<Rightarrow> Request list \<Rightarrow> (error + string) \<times> Request list" where
  "push0 r q = (Inr ''queue-1'', q @ [r])"

definition resp0 :: Response where
  "resp0 = \<lparr>MsgIDs = [''m1''], InitialTimes = [0], resp_Transaction = None,
            resp_Receipt = None, resp_Error = None\<rparr>"

definition status0 :: "Response \<Rightarrow> Status" where
  "status0 r = (if resp_Error r \<noteq> None then StatusError else StatusPending)"

definition build0 :: "unit list \<Rightarrow> Noncer \<Rightarrow> (Transaction option \<times> error option) \<times> Noncer" where
  "build0 msgs n =
     (case Acquire n (Inr 7) of
        Some (Inr nonce, n') \<Rightarrow> ((None, Some (ErrorString ''signing failed'')), n')
      | Some (Inl err, n') \<Rightarrow> ((None, Some err), n')
      | None \<Rightarrow> ((None, Some (ErrorString ''no nonce'')), n))"

definition build1 :: "unit list \<Rightarrow> Noncer \<Rightarrow> (Transaction option \<times> error option) \<times> Noncer" where
  "build1 msgs n =
     (case Acquire n (Inr 7) of
        Some (Inr nonce, n') \<Rightarrow> ((Some (tx0\<lparr>tx_Nonce := nonce\<rparr>), None), n')
      | Some (Inl err, n') \<Rightarrow> ((None, Some err), n')
      | None \<Rightarrow> ((None, Some (ErrorString ''no nonce'')), n))"

definition send0 :: "Transaction option \<Rightarrow> Noncer \<Rightarrow> error option \<times> Noncer" where
  "send0 tx n = (Some (ErrorString ''insufficient funds''), n)"

text \<open>An observation at a given time, of a queue that holds the given requests.\<close>

definition obs_with :: "int \<Rightarrow> Request list \<Rightarrow> Obs" where
  "obs_with now queued =
     \<lparr>obs_at = now, obs_pickCtx = False,
      obs_ReceiveMany = (\<lambda>n. (map MsgID (take (nat n) queued), take (nat n) queued, None))\<rparr>"

definition req1 :: Request where
  "req1 = \<lparr>MsgID = ''m2'', req_To = Some 2, req_Data = [], req_Time = 5\<rparr>"

section \<open>Properties of the Noncer\<close>

lemma keys_Cons: "keys ((k, v) # l) = insert k (keys l)"
  by (simp add: keys_def)

lemma keys_Nil: "keys [] = {}"
  by (simp add: keys_def)

lemma finite_keys: "finite (keys l)"
  by (simp add: keys_def)

lemma keys_Set: "keys (skiplist_Set k v l) = insert k (keys l)"
  by (induction k v l rule: skiplist_Set.induct) (auto simp: keys_Cons keys_Nil)

lemma ordered_Cons: "ordered ((k, v) # l) = ((\<forall>k'\<in>keys l. k < k') \<and> ordered l)"
  by (auto simp: ordered_def keys_def)

lemma ordered_Set: "ordered l \<Longrightarrow> ordered (skiplist_Set k v l)"
proof (induction k v l rule: skiplist_Set.induct)
  case (1 k v)
  then show ?case by (simp add: ordered_def)
next
  case (2 k v k' v' rest)
  then show ?case
    by (auto simp: ordered_Cons keys_Set keys_Cons intro: less_trans)
qed

lemma keys_Remove: "ordered l \<Longrightarrow> keys (skiplist_Remove k l) = keys l - {k}"
proof (induction k l rule: skiplist_Remove.induct)
  case (1 k)
  then show ?case by (simp add: keys_Nil)
next
  case (2 k k' v' rest)
  then have lt: "\<forall>x\<in>keys rest. k' < x" and ord: "ordered rest"
    by (simp_all add: ordered_Cons)
  show ?case
  proof (cases "k = k'")
    case True
    with lt have "k \<notin> keys rest" by auto
    with True show ?thesis by (auto simp: keys_Cons)
  next
    case False
    with 2 ord show ?thesis by (auto simp: keys_Cons)
  qed
qed

lemma ordered_Remove: "ordered l \<Longrightarrow> ordered (skiplist_Remove k l)"
proof (induction k l rule: skiplist_Remove.induct)
  case (1 k)
  then show ?case by simp
next
  case (2 k k' v' rest)
  then show ?case
    by (auto simp: ordered_Cons keys_Remove)
qed

lemma Get_None_iff: "skiplist_Get k l = None \<longleftrightarrow> k \<notin> keys l"
  by (induction k l rule: skiplist_Get.induct) (auto simp: keys_Cons keys_Nil)

lemma list_all_Set: "P (k, v) \<Longrightarrow> list_all P l \<Longrightarrow> list_all P (skiplist_Set k v l)"
  by (induction k v l rule: skiplist_Set.induct) auto

lemma list_all_Remove: "list_all P l \<Longrightarrow> list_all P (skiplist_Remove k l)"
  by (induction k l rule: skiplist_Remove.induct) auto

lemma Back_Max: "ordered l \<Longrightarrow> l \<noteq> [] \<Longrightarrow> fst (last l) = Max (keys l)"
proof (induction l)
  case Nil
  then show ?case by simp
next
  case (Cons a l)
  obtain k' v' where a: "a = (k', v')" by (cases a)
  show ?case
  proof (cases "l = []")
    case True
    then show ?thesis by (simp add: keys_def)
  next
    case False
    from Cons have ord: "ordered l" and lt: "\<forall>x\<in>keys l. k' < x"
      unfolding a by (simp_all add: ordered_Cons)
    have ne: "keys l \<noteq> {}" using False by (simp add: keys_def)
    have mx: "fst (last l) = Max (keys l)" using Cons.IH ord False by simp
    have "Max (keys l) \<in> keys l" using ne finite_keys by (intro Max_in) auto
    then have "k' < Max (keys l)" using lt by blast
    moreover have "keys (a # l) = insert k' (keys l)" unfolding a by (simp add: keys_Cons)
    ultimately have "Max (keys (a # l)) = Max (keys l)"
      using ne finite_keys[of l] by (simp add: max_absorb2 less_imp_le)
    with mx False show ?thesis by simp
  qed
qed

lemma unat_inc: "(i::'a::len word) \<noteq> - 1 \<Longrightarrow> unat (i + 1) = Suc (unat i)"
proof -
  assume "i \<noteq> - 1"
  then have "1 + i \<noteq> 0" by (simp add: eq_neg_iff_add_eq_0 add.commute)
  then show ?thesis using unatSuc[of i] by (simp add: add.commute)
qed

lemma gap_scan_found:
  "i \<le> g \<Longrightarrow> g \<le> hi \<Longrightarrow> skiplist_Get g fl = None \<Longrightarrow>
   (\<forall>m. i \<le> m \<and> m < g \<longrightarrow> skiplist_Get m fl \<noteq> None) \<Longrightarrow>
   gap_scan fl i hi = Some (Some g)"
proof (induction "unat g - unat i" arbitrary: i)
  case 0
  then have "i = g" by (simp add: word_le_nat_alt word_unat_eq_iff)
  with 0 show ?case by (simp add: gap_scan.simps)
next
  case (Suc d)
  then have lt: "i < g" by (simp add: word_less_nat_alt)
  then have nm: "i \<noteq> - 1" by (metis word_order.extremum_strict)
  have step: "unat (i + 1) = Suc (unat i)" using nm by (rule unat_inc)
  have le1: "i + 1 \<le> g" using lt by (rule inc_le)
  have pres: "skiplist_Get i fl \<noteq> None" using Suc.prems lt by blast
  have ib: "i \<le> hi" using Suc.prems by simp
  have d: "d = unat g - unat (i + 1)" using Suc.hyps(2) step by simp
  have all: "\<forall>m. i + 1 \<le> m \<and> m < g \<longrightarrow> skiplist_Get m fl \<noteq> None"
  proof (intro allI impI)
    fix m assume m: "i + 1 \<le> m \<and> m < g"
    then have "i \<le> m" using step by (simp add: word_le_nat_alt)
    with m Suc.prems show "skiplist_Get m fl \<noteq> None" by blast
  qed
  have "gap_scan fl (i + 1) hi = Some (Some g)"
    using Suc.hyps(1)[OF d le1 Suc.prems(2) Suc.prems(3) all] .
  with pres ib show ?case by (subst gap_scan.simps) auto
qed

lemma gap_scan_none:
  "hi \<noteq> - 1 \<Longrightarrow> (\<forall>m. i \<le> m \<and> m \<le> hi \<longrightarrow> skiplist_Get m fl \<noteq> None) \<Longrightarrow>
   gap_scan fl i hi = Some None"
proof (induction "unat hi + 1 - unat i" arbitrary: i)
  case 0
  then have "\<not> i \<le> hi" by (simp add: word_le_nat_alt)
  then show ?case by (subst gap_scan.simps) simp
next
  case (Suc d)
  then have ib: "i \<le> hi" by (simp add: word_le_nat_alt)
  with Suc.prems have nm: "i \<noteq> - 1" by (metis word_order.extremum_uniqueI)
  have step: "unat (i + 1) = Suc (unat i)" using nm by (rule unat_inc)
  have pres: "skiplist_Get i fl \<noteq> None" using Suc.prems ib by blast
  have d: "d = unat hi + 1 - unat (i + 1)" using Suc.hyps(2) step by simp
  have all: "\<forall>m. i + 1 \<le> m \<and> m \<le> hi \<longrightarrow> skiplist_Get m fl \<noteq> None"
  proof (intro allI impI)
    fix m assume m: "i + 1 \<le> m \<and> m \<le> hi"
    then have "i \<le> m" using step by (simp add: word_le_nat_alt)
    with m Suc.prems show "skiplist_Get m fl \<noteq> None" by blast
  qed
  have "gap_scan fl (i + 1) hi = Some None"
    using Suc.hyps(1)[OF d Suc.prems(1) all] .
  with pres ib show ?case by (subst gap_scan.simps) auto
qed

lemma gap_scan_sound:
  assumes "gap_scan fl i hi = Some r"
  shows "case r of Some g \<Rightarrow> skiplist_Get g fl = None | None \<Rightarrow> hi \<noteq> - 1"
proof (rule gap_scan.raw_induct
    [where P = "\<lambda>fl i hi r. case r of Some g \<Rightarrow> skiplist_Get g fl = None | None \<Rightarrow> hi \<noteq> - 1"])
  show "gap_scan fl i hi = Some r" by fact
next
  fix gs :: "InFlightTx SkipList \<Rightarrow> uint64 \<Rightarrow> uint64 \<Rightarrow> uint64 option option"
  fix fl i hi r
  assume IH: "\<And>fl i hi r. gs fl i hi = Some r \<Longrightarrow>
    (case r of Some g \<Rightarrow> skiplist_Get g fl = None | None \<Rightarrow> hi \<noteq> - 1)"
  assume eq: "(if i \<le> hi
      then (if skiplist_Get i fl = None then Some (Some i) else gs fl (i + 1) hi)
      else Some None) = Some r"
  show "case r of Some g \<Rightarrow> skiplist_Get g fl = None | None \<Rightarrow> hi \<noteq> - 1"
  proof (cases "i \<le> hi")
    case False
    then have "hi \<noteq> - 1" by auto
    with False eq show ?thesis by auto
  next
    case True
    show ?thesis
    proof (cases "skiplist_Get i fl = None")
      case True
      with \<open>i \<le> hi\<close> eq show ?thesis by auto
    next
      case False
      with \<open>i \<le> hi\<close> eq have "gs fl (i + 1) hi = Some r" by simp
      then show ?thesis by (rule IH)
    qed
  qed
qed

lemma less_inc: "(w::'a::len word) \<noteq> - 1 \<Longrightarrow> w < w + 1"
  by (simp add: word_less_nat_alt unat_inc)

lemma Back_ok:
  assumes ok: "noncer_ok n" and ne: "inFlight n \<noteq> []"
  shows "\<exists>val. skiplist_Back (inFlight n) = Some (Max (keys (inFlight n)), val) \<and>
               Nonce val = Max (keys (inFlight n))"
proof -
  obtain k val where l: "last (inFlight n) = (k, val)" by (cases "last (inFlight n)")
  have ord: "ordered (inFlight n)" using ok by (simp add: noncer_ok_def)
  have k: "k = Max (keys (inFlight n))" using Back_Max[OF ord ne] l by simp
  have "last (inFlight n) \<in> set (inFlight n)" using ne by simp
  moreover have "\<forall>x\<in>set (inFlight n). case x of (k, tx) \<Rightarrow> Nonce tx = k"
    using ok by (simp add: noncer_ok_def list_all_iff)
  ultimately have "Nonce val = k" using l by fastforce
  with k l ne show ?thesis by (simp add: skiplist_Back_def)
qed

lemma Acquire_inflight:
  assumes ok: "noncer_ok n" and ne: "inFlight n \<noteq> []"
  shows "Acquire n pending =
    (case gap_scan (inFlight n) (latestConfirmedNonce n) (Max (keys (inFlight n))) of
       None \<Rightarrow> None
     | Some (Some g) \<Rightarrow> Some (Inr g, acquire g n)
     | Some None \<Rightarrow> Some (Inr (Max (keys (inFlight n)) + 1), acquire (Max (keys (inFlight n)) + 1) n))"
proof -
  from Back_ok[OF ok ne] obtain val where
    "skiplist_Back (inFlight n) = Some (Max (keys (inFlight n)), val)"
    "Nonce val = Max (keys (inFlight n))" by blast
  then show ?thesis
    by (simp add: Acquire_def acquire_def Let_def split: option.splits)
qed

lemma Acquire_empty:
  "inFlight n = [] \<Longrightarrow>
   Acquire n pending =
     Some (case pending of Inl err \<Rightarrow> (Inl err, n) | Inr p \<Rightarrow> (Inr p, acquire p n))"
  by (simp add: Acquire_def acquire_def skiplist_Back_def split: sum.splits)

lemma finite_gaps: "finite (gaps n)"
  by simp

lemma gaps_Min:
  assumes g: "gaps n \<noteq> {}"
  shows "gap_scan (inFlight n) (latestConfirmedNonce n) (Max (keys (inFlight n))) =
         Some (Some (Min (gaps n)))"
proof (rule gap_scan_found)
  have mem: "Min (gaps n) \<in> gaps n" using g by (intro Min_in) simp_all
  then show "latestConfirmedNonce n \<le> Min (gaps n)" by (simp add: gaps_def)
  from mem show "Min (gaps n) \<le> Max (keys (inFlight n))" by (simp add: gaps_def)
  from mem show "skiplist_Get (Min (gaps n)) (inFlight n) = None"
    by (simp add: gaps_def Get_None_iff)
  show "\<forall>m. latestConfirmedNonce n \<le> m \<and> m < Min (gaps n) \<longrightarrow> skiplist_Get m (inFlight n) \<noteq> None"
  proof (intro allI impI)
    fix m assume m: "latestConfirmedNonce n \<le> m \<and> m < Min (gaps n)"
    have "m \<notin> gaps n" using m by (auto simp: not_le[symmetric])
    moreover have "m \<le> Max (keys (inFlight n))"
      using m \<open>Min (gaps n) \<le> Max (keys (inFlight n))\<close> by auto
    ultimately show "skiplist_Get m (inFlight n) \<noteq> None"
      using m by (simp add: gaps_def Get_None_iff)
  qed
qed

lemma gaps_none:
  assumes g: "gaps n = {}" and mx: "Max (keys (inFlight n)) \<noteq> - 1"
  shows "gap_scan (inFlight n) (latestConfirmedNonce n) (Max (keys (inFlight n))) = Some None"
proof (rule gap_scan_none[OF mx], intro allI impI)
  fix m assume "latestConfirmedNonce n \<le> m \<and> m \<le> Max (keys (inFlight n))"
  with g show "skiplist_Get m (inFlight n) \<noteq> None"
    by (auto simp: gaps_def Get_None_iff)
qed

lemma acquire_keys: "keys (acquired (acquire r n)) = insert r (keys (acquired n))"
  by (simp add: acquire_def keys_Set)

lemma Acquire_result:
  assumes ok: "noncer_ok n" and a: "Acquire n pending = Some (Inr r, n')"
  shows "n' = acquire r n" and "r \<notin> keys (inFlight n)"
    and "inFlight n \<noteq> [] \<Longrightarrow> \<not> (\<exists>m\<in>gaps n. m < r)"
proof -
  show "n' = acquire r n"
  proof (cases "inFlight n = []")
    case True
    with a show ?thesis by (auto simp: Acquire_empty split: sum.splits)
  next
    case False
    with a ok show ?thesis
      by (auto simp: Acquire_inflight split: option.splits)
  qed
  show "r \<notin> keys (inFlight n)"
  proof (cases "inFlight n = []")
    case True
    then show ?thesis by (simp add: keys_Nil)
  next
    case False
    let ?mx = "Max (keys (inFlight n))"
    obtain res where res: "gap_scan (inFlight n) (latestConfirmedNonce n) ?mx = Some res"
      using a ok False by (auto simp: Acquire_inflight split: option.splits)
    show ?thesis
    proof (cases res)
      case None
      with gap_scan_sound[OF res] have nm: "?mx \<noteq> - 1" by simp
      from None res a ok False have r: "r = ?mx + 1" by (simp add: Acquire_inflight)
      have "?mx < ?mx + 1" using nm by (rule less_inc)
      then have "\<not> r \<le> ?mx" using r by simp
      then show ?thesis using Max_ge[OF finite_keys, of r "inFlight n"] by blast
    next
      case (Some g)
      with gap_scan_sound[OF res] have "skiplist_Get g (inFlight n) = None" by simp
      moreover from Some res a ok False have "r = g" by (simp add: Acquire_inflight)
      ultimately show ?thesis by (simp add: Get_None_iff)
    qed
  qed
  show "\<not> (\<exists>m\<in>gaps n. m < r)" if ne: "inFlight n \<noteq> []"
  proof (cases "gaps n = {}")
    case True
    then show ?thesis by simp
  next
    case False
    from a ok ne gaps_Min[OF False] have "r = Min (gaps n)" by (simp add: Acquire_inflight)
    then show ?thesis using Min_le[OF finite_gaps, of _ n] by (auto simp: not_less)
  qed
qed

text \<open>
  Claim C1, as amended. In a well-formed Noncer state (every reachable state is one,
  \<open>reachable_ok\<close>): with nothing in flight, \<open>Acquire\<close> returns what \<open>PendingNonceAt\<close>
  returned, the error with the state unchanged or the nonce; with transactions in flight
  and a gap in \<open>[latestConfirmedNonce, max(inFlight)]\<close>, it returns the smallest gap; with
  no gap there and \<open>max(inFlight)\<close> below \<open>2^64 - 1\<close>, it returns \<open>max(inFlight) + 1\<close>.
  Whenever it returns a nonce, that nonce is added to \<open>acquired\<close> and nothing else
  changes, and no smaller nonce of the range is absent from \<open>inFlight\<close>.
\<close>

theorem Acquire_correct:
  assumes ok: "noncer_ok n"
  shows "(inFlight n = [] \<longrightarrow>
            Acquire n pending =
              Some (case pending of Inl err \<Rightarrow> (Inl err, n) | Inr p \<Rightarrow> (Inr p, acquire p n))) \<and>
         (inFlight n \<noteq> [] \<and> gaps n \<noteq> {} \<longrightarrow>
            Acquire n pending = Some (Inr (Min (gaps n)), acquire (Min (gaps n)) n)) \<and>
         (inFlight n \<noteq> [] \<and> gaps n = {} \<and> Max (keys (inFlight n)) \<noteq> - 1 \<longrightarrow>
            Acquire n pending =
              Some (Inr (Max (keys (inFlight n)) + 1), acquire (Max (keys (inFlight n)) + 1) n)) \<and>
         (\<forall>r n'. Acquire n pending = Some (Inr r, n') \<longrightarrow>
            n' = acquire r n \<and> keys (acquired n') = insert r (keys (acquired n)) \<and>
            (inFlight n \<noteq> [] \<longrightarrow> \<not> (\<exists>m\<in>gaps n. m < r)))"
proof (intro conjI impI allI)
  assume "inFlight n = []"
  then show "Acquire n pending =
      Some (case pending of Inl err \<Rightarrow> (Inl err, n) | Inr p \<Rightarrow> (Inr p, acquire p n))"
    by (rule Acquire_empty)
next
  assume h: "inFlight n \<noteq> [] \<and> gaps n \<noteq> {}"
  then show "Acquire n pending = Some (Inr (Min (gaps n)), acquire (Min (gaps n)) n)"
    using gaps_Min[of n] by (simp add: Acquire_inflight[OF ok])
next
  assume h: "inFlight n \<noteq> [] \<and> gaps n = {} \<and> Max (keys (inFlight n)) \<noteq> - 1"
  then show "Acquire n pending =
      Some (Inr (Max (keys (inFlight n)) + 1), acquire (Max (keys (inFlight n)) + 1) n)"
    using gaps_none[of n] by (simp add: Acquire_inflight[OF ok])
next
  fix r n' assume a: "Acquire n pending = Some (Inr r, n')"
  show "n' = acquire r n" using Acquire_result(1)[OF ok a] .
  then show "keys (acquired n') = insert r (keys (acquired n))" by (simp add: acquire_keys)
  show "\<not> (\<exists>m\<in>gaps n. m < r)" if "inFlight n \<noteq> []"
    using Acquire_result(3)[OF ok a that] .
qed

lemma Nonce_inFlightTx: "Nonce (inFlightTx k) = k"
  by (simp add: Nonce_def inFlightTx_def)

lemmas ev = noncer_of_def NewNoncer_def skiplist_New_def SetInFlight_def RemoveInFlight_def
  setConfirmed_def Nonce_inFlightTx Acquire_def skiplist_Back_def gap_scan.simps acquire_def
  noncer_ok_def ordered_def keys_def word_gt_0 word_order.extremum_unique

lemma reach_wrap:
  "calls [CallSetInFlight (inFlightTx 0), CallSetInFlight (inFlightTx (- 1)), CallRefresh (- 1)]
     (NewNoncer 0 0) = Some (noncer_of [] [0, - 1] (- 1))"
  by (simp add: ev)

lemma gaps_wrap: "gaps (noncer_of [] [0, - 1] (- 1)) = {}"
  by (auto simp: gaps_def ev)

lemma acq_wrap: "Acquire (noncer_of [] [0, - 1] (- 1)) (Inr 0) = Some (Inr 1, noncer_of [1] [0, - 1] (- 1))"
  by (simp add: ev)

lemma ok_wrap: "noncer_ok (noncer_of [] [0, - 1] (- 1))"
  by (simp add: ev)

text \<open>
  Claim C1 as stated fails where \<open>max(inFlight) = 2^64 - 1\<close>: after \<open>SetInFlight\<close> of
  nonces \<open>0\<close> and \<open>2^64 - 1\<close> and a refresh to \<open>2^64 - 1\<close>, the range has no gap, the
  counter of the scan wraps to \<open>0\<close> and \<open>Acquire\<close> returns \<open>1\<close>, which is not
  \<open>max(inFlight) + 1\<close> (that sum wraps to \<open>0\<close>).
\<close>

theorem Acquire_wraps_counterexample:
  "calls [CallSetInFlight (inFlightTx 0), CallSetInFlight (inFlightTx (- 1)), CallRefresh (- 1)]
     (NewNoncer 0 0) = Some (noncer_of [] [0, - 1] (- 1)) \<and>
   inFlight (noncer_of [] [0, - 1] (- 1)) \<noteq> [] \<and>
   gaps (noncer_of [] [0, - 1] (- 1)) = {} \<and>
   Max (keys (inFlight (noncer_of [] [0, - 1] (- 1)))) + 1 = 0 \<and>
   Acquire (noncer_of [] [0, - 1] (- 1)) (Inr 0) = Some (Inr 1, noncer_of [1] [0, - 1] (- 1)) \<and>
   map_option fst (Acquire (noncer_of [] [0, - 1] (- 1)) (Inr 0)) \<noteq>
     Some (Inr (Max (keys (inFlight (noncer_of [] [0, - 1] (- 1)))) + 1))"
  using reach_wrap gaps_wrap acq_wrap by (simp add: ev)

lemma gaps_57: "gaps (noncer_of [] [5, 7] 5) = {6}"
  apply (auto simp: gaps_def ev)
   apply unat_arith
  done

lemma gaps_56: "gaps (noncer_of [] [5, 6] 5) = {}"
  apply (auto simp: gaps_def ev)
  apply unat_arith
  done

text \<open>
  Claim C1 at concrete states: nothing in flight (a nonce and an error from the chain),
  nonces \<open>5\<close> and \<open>7\<close> in flight (the gap \<open>6\<close>), nonces \<open>5\<close> and \<open>6\<close> in flight (\<open>7\<close>).
\<close>

theorem Acquire_correct_witness:
  "Acquire (noncer_of [] [] 0) (Inr 7) = Some (Inr 7, noncer_of [7] [] 0) \<and>
   Acquire (noncer_of [] [] 0) (Inl (ErrorString ''timeout'')) =
      Some (Inl (ErrorString ''timeout''), noncer_of [] [] 0) \<and>
   gaps (noncer_of [] [5, 7] 5) = {6} \<and>
   Acquire (noncer_of [] [5, 7] 5) (Inr 0) = Some (Inr 6, noncer_of [6] [5, 7] 5) \<and>
   gaps (noncer_of [] [5, 6] 5) = {} \<and>
   Acquire (noncer_of [] [5, 6] 5) (Inr 0) = Some (Inr 7, noncer_of [7] [5, 6] 5)"
proof -
  have ok1: "noncer_ok (noncer_of [] [] 0)" by (simp add: ev)
  have ok2: "noncer_ok (noncer_of [] [5, 7] 5)" by (simp add: ev)
  have ok3: "noncer_ok (noncer_of [] [5, 6] 5)" by (simp add: ev)
  have a: "acquire 7 (noncer_of [] [] 0) = noncer_of [7] [] 0" by (simp add: ev)
  have b: "acquire 6 (noncer_of [] [5, 7] 5) = noncer_of [6] [5, 7] 5" by (simp add: ev)
  have c: "acquire 7 (noncer_of [] [5, 6] 5) = noncer_of [7] [5, 6] 5" by (simp add: ev)
  have m: "Max (keys (inFlight (noncer_of [] [5, 6] 5))) = 6" by (simp add: ev)
  have e1: "inFlight (noncer_of [] [] 0) = []" by (simp add: ev)
  have e2: "inFlight (noncer_of [] [5, 7] 5) \<noteq> []" by (simp add: ev)
  have e3: "inFlight (noncer_of [] [5, 6] 5) \<noteq> []" by (simp add: ev)
  show ?thesis
    using Acquire_correct[OF ok1, of "Inr 7"] Acquire_correct[OF ok1, of "Inl (ErrorString ''timeout'')"]
      Acquire_correct[OF ok2, of "Inr 0"] Acquire_correct[OF ok3, of "Inr 0"]
    by (simp add: gaps_57 gaps_56 a b c m e1 e2 e3)
qed

lemma ok_New: "noncer_ok (NewNoncer a t)"
  by (simp add: noncer_ok_def NewNoncer_def skiplist_New_def ordered_def)

lemma ok_acquire: "noncer_ok n \<Longrightarrow> noncer_ok (acquire r n)"
  by (simp add: noncer_ok_def acquire_def ordered_Set)

lemma ok_SetInFlight: "noncer_ok n \<Longrightarrow> noncer_ok (SetInFlight tx n)"
  by (simp add: noncer_ok_def SetInFlight_def ordered_Set ordered_Remove list_all_Set)

lemma ok_RemoveInFlight: "noncer_ok n \<Longrightarrow> noncer_ok (RemoveInFlight tx n)"
  by (simp add: noncer_ok_def RemoveInFlight_def ordered_Remove list_all_Remove)

lemma ok_setConfirmed: "noncer_ok n \<Longrightarrow> noncer_ok (setConfirmed c n)"
  by (simp add: noncer_ok_def setConfirmed_def)

lemma Acquire_cases:
  assumes ok: "noncer_ok n" and a: "Acquire n pending = Some (res, n')"
  shows "(\<exists>err. res = Inl err \<and> n' = n) \<or> (\<exists>r. res = Inr r \<and> n' = acquire r n \<and> r \<notin> keys (inFlight n))"
proof (cases res)
  case (Inl err)
  have "n' = n"
  proof (cases "inFlight n = []")
    case True
    with a Inl show ?thesis by (auto simp: Acquire_empty split: sum.splits)
  next
    case False
    with a Inl ok show ?thesis by (auto simp: Acquire_inflight split: option.splits)
  qed
  with Inl show ?thesis by simp
next
  case (Inr r)
  with Acquire_result(1,2)[OF ok, of pending r n'] a show ?thesis by simp
qed

lemma call_inv:
  assumes ok: "noncer_ok n" and dj: "no_overlap n" and c: "call c n = Some n'"
  shows "noncer_ok n' \<and> no_overlap n'"
proof (cases c)
  case (CallAcquire pending)
  with c obtain res where a: "Acquire n pending = Some (res, n')" by auto
  from Acquire_cases[OF ok a] show ?thesis
  proof
    assume "\<exists>err. res = Inl err \<and> n' = n"
    with ok dj show ?thesis by auto
  next
    assume "\<exists>r. res = Inr r \<and> n' = acquire r n \<and> r \<notin> keys (inFlight n)"
    then obtain r where r: "n' = acquire r n" "r \<notin> keys (inFlight n)" by blast
    have "inFlight (acquire r n) = inFlight n" by (simp add: acquire_def)
    with r dj have "no_overlap n'" by (simp add: no_overlap_def acquire_keys)
    with r ok show ?thesis by (simp add: ok_acquire)
  qed
next
  case (CallSetInFlight tx)
  with c have n': "n' = SetInFlight tx n" by simp
  have "ordered (acquired n)" using ok by (simp add: noncer_ok_def)
  then have "no_overlap n'"
    using dj unfolding n' by (auto simp: no_overlap_def SetInFlight_def keys_Set keys_Remove)
  with ok n' show ?thesis by (simp add: ok_SetInFlight)
next
  case (CallRemoveInFlight tx)
  with c have n': "n' = RemoveInFlight tx n" by simp
  have "ordered (inFlight n)" using ok by (simp add: noncer_ok_def)
  then have "no_overlap n'"
    using dj unfolding n' by (auto simp: no_overlap_def RemoveInFlight_def keys_Remove)
  with ok n' show ?thesis by (simp add: ok_RemoveInFlight)
next
  case (CallRefresh x)
  with c have n': "n' = setConfirmed x n" by simp
  with dj show ?thesis using ok_setConfirmed[OF ok, of x] by (simp add: no_overlap_def setConfirmed_def)
qed

lemma calls_inv:
  "noncer_ok n \<Longrightarrow> no_overlap n \<Longrightarrow> calls cs n = Some n' \<Longrightarrow> noncer_ok n' \<and> no_overlap n'"
proof (induction cs arbitrary: n)
  case Nil
  then show ?case by simp
next
  case (Cons c cs)
  from Cons.prems(3) obtain m where m: "call c n = Some m" and rest: "calls cs m = Some n'"
    by (auto split: option.splits)
  from call_inv[OF Cons.prems(1,2) m] have "noncer_ok m" "no_overlap m" by simp_all
  then show ?case using rest by (rule Cons.IH)
qed

lemma reachable_ok: "calls cs (NewNoncer a t) = Some n \<Longrightarrow> noncer_ok n"
  using calls_inv[OF ok_New, of a t cs n]
  by (simp add: no_overlap_def NewNoncer_def skiplist_New_def keys_Nil)

text \<open>
  Claim C7. After any sequence of \<open>Acquire\<close>, \<open>SetInFlight\<close> and \<open>RemoveInFlight\<close> calls
  (and of refreshes of \<open>latestConfirmedNonce\<close>) from the initial Noncer, no nonce is a key
  of both \<open>acquired\<close> and \<open>inFlight\<close>; and each of these calls, made in a well-formed
  state where the two key sets are disjoint, leaves them disjoint.
\<close>

theorem acquired_inFlight_disjoint:
  "(calls cs (NewNoncer a t) = Some n \<longrightarrow> keys (acquired n) \<inter> keys (inFlight n) = {}) \<and>
   (noncer_ok m \<and> keys (acquired m) \<inter> keys (inFlight m) = {} \<and> call c m = Some m' \<longrightarrow>
      keys (acquired m') \<inter> keys (inFlight m') = {})"
proof (intro conjI impI)
  assume "calls cs (NewNoncer a t) = Some n"
  with calls_inv[OF ok_New, of a t cs n]
  show "keys (acquired n) \<inter> keys (inFlight n) = {}"
    by (simp add: no_overlap_def NewNoncer_def skiplist_New_def keys_Nil)
next
  assume "noncer_ok m \<and> keys (acquired m) \<inter> keys (inFlight m) = {} \<and> call c m = Some m'"
  with call_inv[of m c m']
  show "keys (acquired m') \<inter> keys (inFlight m') = {}"
    by (simp add: no_overlap_def)
qed

text \<open>
  Claim C7 on a sequence of eight calls, and on a \<open>SetInFlight\<close> in the state they reach.
\<close>

theorem acquired_inFlight_disjoint_witness:
  "calls [CallAcquire (Inr 3), CallSetInFlight (inFlightTx 3), CallRefresh 3,
          CallAcquire (Inr 0), CallSetInFlight (inFlightTx 4), CallAcquire (Inr 0),
          CallRemoveInFlight (inFlightTx 3), CallAcquire (Inr 0)]
     (NewNoncer 0 0) = Some (noncer_of [3, 5] [4] 3) \<and>
   keys (acquired (noncer_of [3, 5] [4] 3)) \<inter> keys (inFlight (noncer_of [3, 5] [4] 3)) = {} \<and>
   call (CallSetInFlight (inFlightTx 3)) (noncer_of [3, 5] [4] 3) = Some (noncer_of [5] [3, 4] 3) \<and>
   keys (acquired (noncer_of [5] [3, 4] 3)) \<inter> keys (inFlight (noncer_of [5] [3, 4] 3)) = {}"
proof -
  have ok: "noncer_ok (noncer_of [3, 5] [4] 3)" by (simp add: ev)
  have dj: "keys (acquired (noncer_of [3, 5] [4] 3)) \<inter> keys (inFlight (noncer_of [3, 5] [4] 3)) = {}"
    by (simp add: ev)
  have c: "call (CallSetInFlight (inFlightTx 3)) (noncer_of [3, 5] [4] 3) = Some (noncer_of [5] [3, 4] 3)"
    by (simp add: ev)
  have r: "calls [CallAcquire (Inr 3), CallSetInFlight (inFlightTx 3), CallRefresh 3,
          CallAcquire (Inr 0), CallSetInFlight (inFlightTx 4), CallAcquire (Inr 0),
          CallRemoveInFlight (inFlightTx 3), CallAcquire (Inr 0)]
     (NewNoncer 0 0) = Some (noncer_of [3, 5] [4] 3)"
    by (simp add: ev)
  from acquired_inFlight_disjoint[THEN conjunct1, rule_format, OF r]
    acquired_inFlight_disjoint[THEN conjunct2, rule_format, OF conjI[OF ok conjI[OF dj c]]] r c
  show ?thesis by simp
qed

text \<open>
  Claim C10. Some reachable Noncer state with a transaction in flight has two consecutive
  \<open>Acquire\<close> calls return the same nonce, the second one a nonce that is already a key
  of \<open>acquired\<close>: the scan and \<open>max(inFlight) + 1\<close> read \<open>inFlight\<close> alone.
\<close>

theorem Acquire_repeats_nonce:
  "\<exists>cs n pending r n' n''.
     calls cs (NewNoncer 0 0) = Some n \<and> inFlight n \<noteq> [] \<and>
     Acquire n pending = Some (Inr r, n') \<and> r \<in> keys (acquired n') \<and>
     Acquire n' pending = Some (Inr r, n'')"
proof -
  have "calls [CallRefresh 5, CallSetInFlight (inFlightTx 5)] (NewNoncer 0 0) = Some (noncer_of [] [5] 5)"
    by (simp add: ev)
  moreover have "inFlight (noncer_of [] [5] 5) \<noteq> []" by (simp add: ev)
  moreover have "Acquire (noncer_of [] [5] 5) (Inr 0) = Some (Inr 6, noncer_of [6] [5] 5)"
    by (simp add: ev)
  moreover have "6 \<in> keys (acquired (noncer_of [6] [5] 5))" by (simp add: ev)
  moreover have "Acquire (noncer_of [6] [5] 5) (Inr 0) = Some (Inr 6, noncer_of [6] [5] 5)"
    by (simp add: ev)
  ultimately show ?thesis by blast
qed

section \<open>Properties of the replacement policy\<close>

lemma indicates_nonce_too_low_code:
  "indicates_nonce_too_low err \<longleftrightarrow>
     errors_Is err ErrNonceTooLow \<or>
     (case err of None \<Rightarrow> False | Some e \<Rightarrow> strings_Contains (Error_msg e) ''nonce too low'')"
  by (simp add: indicates_nonce_too_low_def errors_Is_def split: option.splits)

lemma indicates_underpriced_code:
  "indicates_underpriced err \<longleftrightarrow>
     errors_Is err ErrReplaceUnderpriced \<or>
     (case err of None \<Rightarrow> False
      | Some e \<Rightarrow> strings_Contains (Error_msg e) ''replacement transaction underpriced'')"
  by (simp add: indicates_underpriced_def errors_Is_def split: option.splits)

lemma GetNew_cases:
  "GetNew d tx err =
     (if indicates_nonce_too_low err
      then (if snd (nf_GetNextNonce d (tx_Nonce tx)) \<or> indicates_underpriced err
            then BumpGas (SetNonce tx (fst (nf_GetNextNonce d (tx_Nonce tx))))
            else SetNonce tx (fst (nf_GetNextNonce d (tx_Nonce tx))))
      else (if indicates_underpriced err then BumpGas tx else tx))"
  unfolding indicates_nonce_too_low_code indicates_underpriced_code GetNew_def
  by (simp split: prod.splits)

text \<open>
  Claim C2. \<open>GetNew\<close> is the replacement the claim describes: the nonce is replaced, by
  the nonce \<open>GetNextNonce\<close> returns for the current one, exactly when the error indicates
  "nonce too low"; the gas is bumped exactly when the error indicates "replacement
  transaction underpriced" or the nonce was replaced and \<open>GetNextNonce\<close> said
  \<open>shouldBumpGas\<close>; with any other error the transaction comes back unchanged. Where
  \<open>GetNextNonce\<close> keeps its contract (\<open>shouldBumpGas\<close> exactly when the new nonce is the
  current one), the second condition reads "the replacement nonce equals the current nonce".
\<close>

theorem GetNew_replaces_and_bumps:
  "GetNew d tx err = replacement_spec d tx err \<and>
   (\<not> indicates_nonce_too_low err \<and> \<not> indicates_underpriced err \<longrightarrow> GetNew d tx err = tx) \<and>
   (\<not> indicates_nonce_too_low err \<and> indicates_underpriced err \<longrightarrow> GetNew d tx err = BumpGas tx) \<and>
   (indicates_nonce_too_low err \<longrightarrow>
      GetNew d tx err =
        (if indicates_underpriced err \<or> snd (nf_GetNextNonce d (tx_Nonce tx))
         then BumpGas (SetNonce tx (fst (nf_GetNextNonce d (tx_Nonce tx))))
         else SetNonce tx (fst (nf_GetNextNonce d (tx_Nonce tx))))) \<and>
   ((\<forall>cur. snd (nf_GetNextNonce d cur) = (fst (nf_GetNextNonce d cur) = cur)) \<and>
    indicates_nonce_too_low err \<longrightarrow>
      GetNew d tx err =
        (if indicates_underpriced err \<or> fst (nf_GetNextNonce d (tx_Nonce tx)) = tx_Nonce tx
         then BumpGas (SetNonce tx (fst (nf_GetNextNonce d (tx_Nonce tx))))
         else SetNonce tx (fst (nf_GetNextNonce d (tx_Nonce tx)))))"
  by (auto simp: GetNew_cases replacement_spec_def Let_def)

lemma ind1: "indicates_nonce_too_low (Some (Wrap ''send failed'' ErrNonceTooLow))"
  by (simp add: indicates_nonce_too_low_def)
lemma ind2: "\<not> indicates_underpriced (Some (Wrap ''send failed'' ErrNonceTooLow))"
  by (simp add: indicates_underpriced_def)
lemma ind3: "indicates_underpriced (Some (ErrorString ''rpc: replacement transaction underpriced''))"
  by (simp add: indicates_underpriced_def)
lemma ind4: "\<not> indicates_nonce_too_low (Some (ErrorString ''rpc: replacement transaction underpriced''))"
  by (simp add: indicates_nonce_too_low_def)
lemma ind5: "\<not> indicates_nonce_too_low (Some (ErrorString ''insufficient funds''))"
  by (simp add: indicates_nonce_too_low_def)
lemma ind6: "\<not> indicates_underpriced (Some (ErrorString ''insufficient funds''))"
  by (simp add: indicates_underpriced_def)

text \<open>
  Claim C2 on four errors: one that is neither, "replacement transaction underpriced",
  "nonce too low" with a fresh nonce, and "nonce too low" with the same nonce.
\<close>

theorem GetNew_replaces_and_bumps_witness:
  "GetNew policy0 tx0 (Some (ErrorString ''insufficient funds'')) = tx0 \<and>
   GetNew policy0 tx0 (Some (ErrorString ''rpc: replacement transaction underpriced'')) =
     tx0\<lparr>tx_GasTipCap := 1152, tx_GasFeeCap := 2300\<rparr> \<and>
   GetNew policy0 tx0 (Some (Wrap ''send failed'' ErrNonceTooLow)) = tx0\<lparr>tx_Nonce := 12\<rparr> \<and>
   GetNew policy0 (tx0\<lparr>tx_Nonce := 11\<rparr>) (Some (Wrap ''send failed'' ErrNonceTooLow)) =
     tx0\<lparr>tx_Nonce := 11, tx_GasTipCap := 1152, tx_GasFeeCap := 2300\<rparr>"
proof -
  have c: "\<forall>cur. snd (nf_GetNextNonce policy0 cur) = (fst (nf_GetNextNonce policy0 cur) = cur)"
    by (simp add: policy0_def)
  note cases = GetNew_replaces_and_bumps[THEN conjunct2]
  show ?thesis
    using cases[of "Some (ErrorString ''insufficient funds'')" policy0 tx0]
      cases[of "Some (ErrorString ''rpc: replacement transaction underpriced'')" policy0 tx0]
      cases[of "Some (Wrap ''send failed'' ErrNonceTooLow)" policy0 tx0]
      cases[of "Some (Wrap ''send failed'' ErrNonceTooLow)" policy0 "tx0\<lparr>tx_Nonce := 11\<rparr>"]
      c ind1 ind2 ind3 ind4 ind5 ind6
    by (simp add: BumpGas_def SetNonce_def bump15_def tx0_def policy0_def)
qed

lemma bump15_ceiling: "bump15 x = \<lceil>115 / 100 * real_of_int x\<rceil>"
proof -
  have "\<lceil>115 / 100 * real_of_int x\<rceil> = - \<lfloor>real_of_int (- (x * 115)) / real_of_int 100\<rfloor>"
    by (simp add: ceiling_def)
  also have "\<dots> = - ((- (x * 115)) div 100)"
    by (simp only: floor_divide_of_int_eq)
  finally show ?thesis by (simp add: bump15_def)
qed

text \<open>
  Claim C3. For a transaction \<open>T\<close> that the policy decides to gas-bump, the replacement
  has a tip cap of at least \<open>ceil(1.15 * T.GasTipCap)\<close> and a fee cap of at least
  \<open>ceil(1.15 * T.GasFeeCap)\<close>, and differs from \<open>T\<close> in the two fee fields and, when the
  nonce was replaced, the nonce, and in nothing else.
\<close>

theorem gas_bump_monotone:
  assumes "indicates_underpriced err \<or>
           (indicates_nonce_too_low err \<and> snd (nf_GetNextNonce d (tx_Nonce T)))"
  shows "tx_GasTipCap (GetNew d T err) \<ge> \<lceil>115 / 100 * real_of_int (tx_GasTipCap T)\<rceil> \<and>
         tx_GasFeeCap (GetNew d T err) \<ge> \<lceil>115 / 100 * real_of_int (tx_GasFeeCap T)\<rceil> \<and>
         GetNew d T err =
           T\<lparr>tx_Nonce := (if indicates_nonce_too_low err
                           then fst (nf_GetNextNonce d (tx_Nonce T)) else tx_Nonce T),
             tx_GasTipCap := tx_GasTipCap (GetNew d T err),
             tx_GasFeeCap := tx_GasFeeCap (GetNew d T err)\<rparr>"
proof -
  have tip: "tx_GasTipCap (GetNew d T err) = bump15 (tx_GasTipCap T)"
    using assms by (auto simp: GetNew_cases BumpGas_def SetNonce_def)
  have fee: "tx_GasFeeCap (GetNew d T err) = bump15 (tx_GasFeeCap T)"
    using assms by (auto simp: GetNew_cases BumpGas_def SetNonce_def)
  have rest: "GetNew d T err =
           T\<lparr>tx_Nonce := (if indicates_nonce_too_low err
                           then fst (nf_GetNextNonce d (tx_Nonce T)) else tx_Nonce T),
             tx_GasTipCap := tx_GasTipCap (GetNew d T err),
             tx_GasFeeCap := tx_GasFeeCap (GetNew d T err)\<rparr>"
    unfolding tip fee using assms by (auto simp: GetNew_cases BumpGas_def SetNonce_def)
  have "\<lceil>115 / 100 * real_of_int (tx_GasTipCap T)\<rceil> \<le> tx_GasTipCap (GetNew d T err)"
    by (simp only: tip bump15_ceiling order_refl)
  moreover have "\<lceil>115 / 100 * real_of_int (tx_GasFeeCap T)\<rceil> \<le> tx_GasFeeCap (GetNew d T err)"
    by (simp only: fee bump15_ceiling order_refl)
  ultimately show ?thesis using rest by blast
qed

text \<open>
  Claim C3 on a tip cap of 1001 (1151.15 rounds up to 1152) and a fee cap of 2000.
\<close>

theorem gas_bump_monotone_witness:
  "tx_GasTipCap (GetNew policy0 tx0 (Some ErrReplaceUnderpriced)) = 1152 \<and>
   \<lceil>115 / 100 * real_of_int (tx_GasTipCap tx0)\<rceil> = 1152 \<and>
   tx_GasFeeCap (GetNew policy0 tx0 (Some ErrReplaceUnderpriced)) = 2300 \<and>
   GetNew policy0 tx0 (Some ErrReplaceUnderpriced) = tx0\<lparr>tx_GasTipCap := 1152, tx_GasFeeCap := 2300\<rparr>"
proof -
  have h: "indicates_underpriced (Some ErrReplaceUnderpriced) \<or>
           (indicates_nonce_too_low (Some ErrReplaceUnderpriced) \<and> snd (nf_GetNextNonce policy0 (tx_Nonce tx0)))"
    by (simp add: indicates_underpriced_def)
  have n: "\<not> indicates_nonce_too_low (Some ErrReplaceUnderpriced)"
    by (simp add: indicates_nonce_too_low_def)
  have v: "tx_GasTipCap (GetNew policy0 tx0 (Some ErrReplaceUnderpriced)) = 1152"
          "tx_GasFeeCap (GetNew policy0 tx0 (Some ErrReplaceUnderpriced)) = 2300"
    by (simp_all add: GetNew_def errors_Is_def BumpGas_def bump15_def tx0_def)
  have c: "\<lceil>115 / 100 * real_of_int (tx_GasTipCap tx0)\<rceil> = 1152"
    by (simp add: bump15_ceiling[symmetric] bump15_def tx0_def)
  show ?thesis
    using gas_bump_monotone[OF h] n v c by (simp add: tx0_def)
qed

section \<open>Properties of the refresh loop\<close>

lemma RefreshLoop_from_received:
  "received timer \<Longrightarrow>
   fst (snd (RefreshLoop_from ctxDoneAt pickCtx NonceAt timer now n refreshed)) = refreshed"
  by (subst RefreshLoop_from.simps)
     (simp add: select_RefreshLoop_def split: option.splits)

lemma RefreshLoop_from_once:
  "length (fst (snd (RefreshLoop_from ctxDoneAt pickCtx NonceAt timer now n refreshed)))
     \<le> Suc (length refreshed)"
proof (cases "select_RefreshLoop ctxDoneAt timer pickCtx now")
  case (WakeCtxDone t)
  then show ?thesis by (subst RefreshLoop_from.simps) simp
next
  case (WakeTimer t)
  have "fst (snd (RefreshLoop_from ctxDoneAt pickCtx NonceAt (timer\<lparr>received := True\<rparr>) t
      (n\<lparr>latestConfirmedNonce := NonceAt t\<rparr>) (refreshed @ [t]))) = refreshed @ [t]"
    by (rule RefreshLoop_from_received) simp
  with WakeTimer show ?thesis by (subst RefreshLoop_from.simps) simp
next
  case Blocked
  then show ?thesis by (subst RefreshLoop_from.simps) simp
qed

text \<open>
  Claim C4 fails on the code. Whatever the lifetime of the context, \<open>RefreshLoop\<close>
  writes \<open>latestConfirmedNonce\<close> at most once: its timer is a \<open>time.NewTimer\<close>, which
  fires once and is never reset. With a context cancelled after 60 seconds the only
  refresh is the one at 5 seconds, and with a context that is never cancelled the loop
  is left blocked after it.
\<close>

theorem RefreshLoop_refreshes_once:
  "length (fst (snd (RefreshLoop ctxDoneAt pickCtx NonceAt start n))) \<le> 1 \<and>
   RefreshLoop (Some (60 * Second)) False (\<lambda>t. 7) 0 (noncer_of [] [] 0) =
     (noncer_of [] [] 7, [5 * Second], Some (60 * Second)) \<and>
   RefreshLoop None False (\<lambda>t. 7) 0 (noncer_of [] [] 0) = (noncer_of [] [] 7, [5 * Second], None)"
proof (intro conjI)
  show "length (fst (snd (RefreshLoop ctxDoneAt pickCtx NonceAt start n))) \<le> 1"
    using RefreshLoop_from_once[of ctxDoneAt pickCtx NonceAt "time_NewTimer start (5 * Second)" start n "[]"]
    by (simp add: RefreshLoop_def)
  show "RefreshLoop (Some (60 * Second)) False (\<lambda>t. 7) 0 (noncer_of [] [] 0) =
     (noncer_of [] [] 7, [5 * Second], Some (60 * Second))"
    by (simp add: RefreshLoop_def time_NewTimer_def select_RefreshLoop_def Second_def noncer_of_def)
  show "RefreshLoop None False (\<lambda>t. 7) 0 (noncer_of [] [] 0) = (noncer_of [] [] 7, [5 * Second], None)"
    by (simp add: RefreshLoop_def time_NewTimer_def select_RefreshLoop_def Second_def noncer_of_def)
qed

section \<open>Properties of the preconfirmed states and of SendTxRequest\<close>

lemma fold_remove_apply:
  "fold (\<lambda>msgID m. m(msgID := None)) msgIDs m k = (if k \<in> set msgIDs then None else m k)"
  by (induction msgIDs arbitrary: m) auto

lemma removeStateTracking_states:
  "preconfirmedStates (removeStateTracking msgIDs t) =
     (\<lambda>k. if k \<in> set msgIDs then None else preconfirmedStates t k)"
  by (rule ext) (simp add: removeStateTracking_def fold_remove_apply)

text \<open>
  Claim C9. After \<open>removeStateTracking(m)\<close> the state read for \<open>m\<close> is \<open>Unknown\<close>;
  removing twice gives the same transactor as removing once; the entries of all other
  message ids are unchanged. The same holds for a list of message ids.
\<close>

theorem removeStateTracking_clears:
  "GetPreconfirmedState (removeStateTracking [m] t) m = StateUnknown \<and>
   removeStateTracking [m] (removeStateTracking [m] t) = removeStateTracking [m] t \<and>
   (\<forall>k. k \<noteq> m \<longrightarrow>
      preconfirmedStates (removeStateTracking [m] t) k = preconfirmedStates t k) \<and>
   (\<forall>k\<in>set msgIDs. GetPreconfirmedState (removeStateTracking msgIDs t) k = StateUnknown) \<and>
   removeStateTracking msgIDs (removeStateTracking msgIDs t) = removeStateTracking msgIDs t \<and>
   (\<forall>k. k \<notin> set msgIDs \<longrightarrow>
      preconfirmedStates (removeStateTracking msgIDs t) k = preconfirmedStates t k)"
proof -
  have idem: "removeStateTracking ms (removeStateTracking ms t) = removeStateTracking ms t" for ms
  proof -
    have "preconfirmedStates (removeStateTracking ms (removeStateTracking ms t)) =
          preconfirmedStates (removeStateTracking ms t)"
      by (auto simp: removeStateTracking_states fun_eq_iff)
    then show ?thesis by (simp add: removeStateTracking_def)
  qed
  show ?thesis
    using idem[of "[m]"] idem[of msgIDs]
    by (simp add: GetPreconfirmedState_def removeStateTracking_states)
qed

text \<open>
  Claim C9 on a map with two entries.
\<close>

theorem removeStateTracking_clears_witness:
  "GetPreconfirmedState txr0 ''a'' = StateQueued \<and>
   GetPreconfirmedState (removeStateTracking [''a''] txr0) ''a'' = StateUnknown \<and>
   removeStateTracking [''a''] (removeStateTracking [''a''] txr0) = removeStateTracking [''a''] txr0 \<and>
   preconfirmedStates (removeStateTracking [''a''] txr0) ''b'' = Some StateInFlight"
  using removeStateTracking_clears[of "''a''" txr0 "[''a'']"]
  by (simp add: GetPreconfirmedState_def txr0_def)

lemma markState_one:
  "markState state [msgID] t = t\<lparr>preconfirmedStates := (preconfirmedStates t)(msgID \<mapsto> state)\<rparr>"
  by (simp add: markState_def)

text \<open>
  Claim C8. A request that fails validation gives the error and leaves the transactor
  (queue and preconfirmed states) as it was. When validation and the push succeed, the
  request is pushed, the id returned is the queue's when \<open>UseQueueMessageID\<close> is set and
  the request's own otherwise, that id is marked \<open>Queued\<close> and no other entry changes.
  (A failing push gives its error and marks nothing.)
\<close>

theorem SendTxRequest_correct:
  "(\<forall>err r'. validate txReq = (Some err, r') \<longrightarrow>
      SendTxRequest validate push t txReq = (Inl err, t)) \<and>
   (\<forall>r' err q. validate txReq = (None, r') \<and> push r' (requests t) = (Inl err, q) \<longrightarrow>
      SendTxRequest validate push t txReq = (Inl err, t\<lparr>requests := q\<rparr>)) \<and>
   (\<forall>r' queueID q. validate txReq = (None, r') \<and> push r' (requests t) = (Inr queueID, q) \<longrightarrow>
      (let msgID = (if UseQueueMessageID (cfg t) then queueID else MsgID r');
           t' = snd (SendTxRequest validate push t txReq)
       in fst (SendTxRequest validate push t txReq) = Inr msgID \<and>
          t' = t\<lparr>requests := q, preconfirmedStates := (preconfirmedStates t)(msgID \<mapsto> StateQueued)\<rparr> \<and>
          GetPreconfirmedState t' msgID = StateQueued \<and>
          (\<forall>k. k \<noteq> msgID \<longrightarrow> preconfirmedStates t' k = preconfirmedStates t k)))"
  by (simp add: SendTxRequest_def markState_one GetPreconfirmedState_def Let_def)

text \<open>
  Claim C8 on a request without destination, and on a valid request with and without
  \<open>UseQueueMessageID\<close>.
\<close>

theorem SendTxRequest_correct_witness:
  "SendTxRequest validate0 push0 txr0 (req0\<lparr>req_To := None\<rparr>) =
     (Inl (ErrorString ''no destination''), txr0) \<and>
   SendTxRequest validate0 push0 txr0 req0 =
     (Inr ''m1'', txr0\<lparr>requests := [req0],
        preconfirmedStates := (preconfirmedStates txr0)(''m1'' \<mapsto> StateQueued)\<rparr>) \<and>
   SendTxRequest validate0 push0 (txr0\<lparr>cfg := cfg0\<lparr>UseQueueMessageID := True\<rparr>\<rparr>) req0 =
     (Inr ''queue-1'', txr0\<lparr>cfg := cfg0\<lparr>UseQueueMessageID := True\<rparr>, requests := [req0],
        preconfirmedStates := (preconfirmedStates txr0)(''queue-1'' \<mapsto> StateQueued)\<rparr>)"
proof -
  have v1: "validate0 (req0\<lparr>req_To := None\<rparr>) = (Some (ErrorString ''no destination''), req0\<lparr>req_To := None\<rparr>)"
    by (simp add: validate0_def)
  have v2: "validate0 req0 = (None, req0)" by (simp add: validate0_def req0_def)
  have p: "push0 req0 (requests txr0) = (Inr ''queue-1'', [req0])" by (simp add: push0_def txr0_def)
  have p': "push0 req0 (requests (txr0\<lparr>cfg := cfg0\<lparr>UseQueueMessageID := True\<rparr>\<rparr>)) = (Inr ''queue-1'', [req0])"
    by (simp add: push0_def txr0_def)
  have u: "\<not> UseQueueMessageID (cfg txr0)" by (simp add: txr0_def cfg0_def)
  have m: "MsgID req0 = ''m1''" by (simp add: req0_def)
  show ?thesis
    using SendTxRequest_correct[of validate0 "req0\<lparr>req_To := None\<rparr>" push0 txr0]
      SendTxRequest_correct[of validate0 req0 push0 txr0]
      SendTxRequest_correct[of validate0 req0 push0 "txr0\<lparr>cfg := cfg0\<lparr>UseQueueMessageID := True\<rparr>\<rparr>"]
      v1 v2 p p' u m
    by (simp add: Let_def prod_eq_iff)
qed

section \<open>Properties of retrieveBatch\<close>

lemma appendReceived_length:
  "appendReceived u ids reqs batch = Some b' \<Longrightarrow> length b' = length batch + length reqs"
  by (induction u ids reqs batch rule: appendReceived.induct) (auto split: if_splits list.splits)

lemma appendReceived_Some:
  "(u \<longrightarrow> length reqs \<le> length ids) \<Longrightarrow> \<exists>b'. appendReceived u ids reqs batch = Some b'"
proof (induction u ids reqs batch rule: appendReceived.induct)
  case (1 u ids batch)
  then show ?case by simp
next
  case (2 u ids r rs batch)
  then show ?case by (cases ids) auto
qed

lemma int32_le: "0 \<le> x \<Longrightarrow> int32 x \<le> x"
  by (simp add: int32_def signed_take_bit_int_less_eq_self_iff)

lemma received_fits:
  assumes q: "queue_ok ob" and inv: "int (length batch) \<le> TxBatchSize c"
    and rm: "obs_ReceiveMany ob (int32 (TxBatchSize c - int (length batch))) = (ids, reqs, None)"
  shows "\<exists>b'. appendReceived (UseQueueMessageID c) ids reqs batch = Some b' \<and>
              int (length b') \<le> TxBatchSize c"
proof -
  let ?rem = "TxBatchSize c - int (length batch)"
  from q rm have len: "int (length reqs) \<le> max 0 (int32 ?rem)" and ids: "length ids = length reqs"
    unfolding queue_ok_def by (auto dest: spec[where x = "int32 ?rem"])
  have "int32 ?rem \<le> ?rem" using inv by (intro int32_le) simp
  with len inv have fit: "int (length batch) + int (length reqs) \<le> TxBatchSize c" by simp
  have "UseQueueMessageID c \<longrightarrow> length reqs \<le> length ids" using ids by simp
  from appendReceived_Some[OF this] obtain b' where
    b': "appendReceived (UseQueueMessageID c) ids reqs batch = Some b'" by blast
  with appendReceived_length[OF b'] fit show ?thesis by simp
qed

lemma select_cases:
  "select_retrieveBatch ctxDoneAt timerAt ob = SelCtxDone \<Longrightarrow> \<exists>d. ctxDoneAt = Some d \<and> d \<le> obs_at ob"
  "select_retrieveBatch ctxDoneAt timerAt ob = SelTimer \<Longrightarrow> timerAt \<le> obs_at ob"
  "select_retrieveBatch ctxDoneAt timerAt ob = SelDefault \<Longrightarrow> obs_at ob < timerAt"
  by (auto simp: select_retrieveBatch_def Let_def split: if_splits option.splits)

lemma loop_inv:
  assumes "\<forall>ob\<in>set obs. queue_ok ob" and "int (length batch) \<le> TxBatchSize c"
  shows "case retrieveBatch_loop c ctxDoneAt timerAt obs batch of
           Running b \<Rightarrow> int (length b) \<le> TxBatchSize c
         | Returned e b t \<Rightarrow> exit_ok c ctxDoneAt timerAt e b t
         | Panicked \<Rightarrow> False"
  using assms
proof (induction obs arbitrary: batch)
  case Nil
  then show ?case by simp
next
  case (Cons ob obs)
  have size: "0 \<le> TxBatchSize c" using Cons.prems(2) by simp
  show ?case
  proof (cases "select_retrieveBatch ctxDoneAt timerAt ob")
    case SelCtxDone
    with select_cases(1)[OF SelCtxDone] size show ?thesis by (simp add: exit_ok_def)
  next
    case SelTimer
    with select_cases(2)[OF SelTimer] Cons.prems(2) show ?thesis by (simp add: exit_ok_def)
  next
    case SelDefault
    note lt = select_cases(3)[OF SelDefault]
    show ?thesis
    proof (cases "TxBatchSize c - int (length batch) = 0")
      case True
      with SelDefault lt show ?thesis by (simp add: exit_ok_def max_def)
    next
      case False
      obtain ids reqs err where rm:
        "obs_ReceiveMany ob (int32 (TxBatchSize c - int (length batch))) = (ids, reqs, err)"
        by (cases "obs_ReceiveMany ob (int32 (TxBatchSize c - int (length batch)))")
      have q: "queue_ok ob" and qs: "\<forall>ob\<in>set obs. queue_ok ob" using Cons.prems(1) by simp_all
      show ?thesis
      proof (cases err)
        case (Some e)
        with SelDefault False rm Cons.IH[OF qs Cons.prems(2)] show ?thesis by simp
      next
        case None
        from received_fits[OF q Cons.prems(2) rm[unfolded None]] obtain b' where
          b': "appendReceived (UseQueueMessageID c) ids reqs batch = Some b'"
          and fit: "int (length b') \<le> TxBatchSize c" by blast
        with SelDefault False rm None Cons.IH[OF qs fit] show ?thesis by simp
      qed
    qed
  qed
qed

lemma loop_append:
  "retrieveBatch_loop c ctxDoneAt timerAt (pre @ post) batch =
     (case retrieveBatch_loop c ctxDoneAt timerAt pre batch of
        Running b \<Rightarrow> retrieveBatch_loop c ctxDoneAt timerAt post b
      | Returned e b t \<Rightarrow> Returned e b t
      | Panicked \<Rightarrow> Panicked)"
  by (induction pre arbitrary: batch)
     (auto simp: Let_def split: Selected.splits prod.splits option.splits)

lemma loop_returns:
  "\<exists>ob\<in>set obs. timerAt \<le> obs_at ob \<Longrightarrow>
   (\<forall>b. retrieveBatch_loop c ctxDoneAt timerAt obs batch \<noteq> Running b)"
proof (induction obs arbitrary: batch)
  case Nil
  then show ?case by simp
next
  case (Cons ob obs)
  show ?case
  proof (cases "timerAt \<le> obs_at ob")
    case True
    then have "select_retrieveBatch ctxDoneAt timerAt ob \<noteq> SelDefault"
      by (auto simp: select_retrieveBatch_def Let_def)
    then show ?thesis by (auto split: Selected.splits)
  next
    case False
    with Cons.prems have "\<exists>ob\<in>set obs. timerAt \<le> obs_at ob" by simp
    from Cons.IH[OF this] show ?thesis
      by (auto simp: Let_def split: Selected.splits prod.splits option.splits)
  qed
qed

text \<open>
  Claim C6, as amended. With a batch size that is not negative and a queue that keeps
  the contract of \<open>ReceiveMany\<close>, \<open>retrieveBatch\<close> does not panic and a batch it returns
  has at most \<open>TxBatchSize\<close> requests. It returns the empty batch when its \<open>select\<close>
  takes the cancellation, and the requests gathered so far when the \<open>select\<close> takes the
  timer. When the \<open>select\<close> falls through with a full batch, it returns that batch at
  once if \<open>WaitFullBatchTimeout\<close> is false, and at the timer's time if it is true
  (whether the context is cancelled meanwhile or not); with \<open>WaitFullBatchTimeout\<close> true
  every return but the one on cancellation is at or after \<open>TxBatchTimeout\<close>. Once the
  timer is due, the next \<open>select\<close> returns.
\<close>

theorem retrieveBatch_correct:
  assumes size: "0 \<le> TxBatchSize c" and queue: "\<forall>ob\<in>set obs. queue_ok ob"
  shows
   "retrieveBatch c ctxDoneAt start obs \<noteq> Panicked \<and>
    (\<forall>e b t. retrieveBatch c ctxDoneAt start obs = Returned e b t \<longrightarrow>
        int (length b) \<le> TxBatchSize c \<and>
        (e = ExitCtxDone \<longrightarrow> b = [] \<and> (\<exists>d. ctxDoneAt = Some d \<and> d \<le> t)) \<and>
        (e = ExitTimer \<longrightarrow> start + TxBatchTimeout c \<le> t) \<and>
        (e = ExitFull \<longrightarrow> \<not> WaitFullBatchTimeout c \<and> int (length b) = TxBatchSize c) \<and>
        (e = ExitFullWaited \<longrightarrow>
           WaitFullBatchTimeout c \<and> int (length b) = TxBatchSize c \<and>
           t = start + TxBatchTimeout c) \<and>
        (WaitFullBatchTimeout c \<and> e \<noteq> ExitCtxDone \<longrightarrow> start + TxBatchTimeout c \<le> t)) \<and>
    (\<forall>b ob. retrieveBatch c ctxDoneAt start obs = Running b \<longrightarrow>
        int (length b) \<le> TxBatchSize c \<and>
        (select_retrieveBatch ctxDoneAt (start + TxBatchTimeout c) ob = SelCtxDone \<longrightarrow>
           retrieveBatch c ctxDoneAt start (obs @ [ob]) = Returned ExitCtxDone [] (obs_at ob)) \<and>
        (select_retrieveBatch ctxDoneAt (start + TxBatchTimeout c) ob = SelTimer \<longrightarrow>
           retrieveBatch c ctxDoneAt start (obs @ [ob]) = Returned ExitTimer b (obs_at ob)) \<and>
        (select_retrieveBatch ctxDoneAt (start + TxBatchTimeout c) ob = SelDefault \<and>
         int (length b) = TxBatchSize c \<and> \<not> WaitFullBatchTimeout c \<longrightarrow>
           retrieveBatch c ctxDoneAt start (obs @ [ob]) = Returned ExitFull b (obs_at ob)) \<and>
        (select_retrieveBatch ctxDoneAt (start + TxBatchTimeout c) ob = SelDefault \<and>
         int (length b) = TxBatchSize c \<and> WaitFullBatchTimeout c \<longrightarrow>
           retrieveBatch c ctxDoneAt start (obs @ [ob]) =
             Returned ExitFullWaited b (start + TxBatchTimeout c))) \<and>
    ((\<exists>ob\<in>set obs. start + TxBatchTimeout c \<le> obs_at ob) \<longrightarrow>
       (\<exists>e b t. retrieveBatch c ctxDoneAt start obs = Returned e b t))"
proof -
  let ?tm = "start + TxBatchTimeout c"
  have inv0: "int (length ([]::Request list)) \<le> TxBatchSize c" using size by simp
  note inv = loop_inv[OF queue inv0, of ctxDoneAt ?tm, folded retrieveBatch_def]
  have p1: "retrieveBatch c ctxDoneAt start obs \<noteq> Panicked"
    using inv by (auto split: Run.splits)
  have p2: "exit_ok c ctxDoneAt ?tm e b t" if "retrieveBatch c ctxDoneAt start obs = Returned e b t" for e b t
    using inv that by simp
  have p3: "int (length b) \<le> TxBatchSize c" if "retrieveBatch c ctxDoneAt start obs = Running b" for b
    using inv that by simp
  have step: "retrieveBatch c ctxDoneAt start (obs @ [ob]) =
              retrieveBatch_loop c ctxDoneAt ?tm [ob] b"
    if "retrieveBatch c ctxDoneAt start obs = Running b" for b ob
    using that by (simp add: retrieveBatch_def loop_append)
  have p4: "\<exists>e b t. retrieveBatch c ctxDoneAt start obs = Returned e b t"
    if "\<exists>ob\<in>set obs. ?tm \<le> obs_at ob"
    using loop_returns[OF that, of c ctxDoneAt "[]"] p1
    by (cases "retrieveBatch c ctxDoneAt start obs") (auto simp: retrieveBatch_def)
  have B: "\<forall>e b t. retrieveBatch c ctxDoneAt start obs = Returned e b t \<longrightarrow>
        int (length b) \<le> TxBatchSize c \<and>
        (e = ExitCtxDone \<longrightarrow> b = [] \<and> (\<exists>d. ctxDoneAt = Some d \<and> d \<le> t)) \<and>
        (e = ExitTimer \<longrightarrow> start + TxBatchTimeout c \<le> t) \<and>
        (e = ExitFull \<longrightarrow> \<not> WaitFullBatchTimeout c \<and> int (length b) = TxBatchSize c) \<and>
        (e = ExitFullWaited \<longrightarrow>
           WaitFullBatchTimeout c \<and> int (length b) = TxBatchSize c \<and>
           t = start + TxBatchTimeout c) \<and>
        (WaitFullBatchTimeout c \<and> e \<noteq> ExitCtxDone \<longrightarrow> start + TxBatchTimeout c \<le> t)"
    using p2 unfolding exit_ok_def by blast
  have C: "\<forall>b ob. retrieveBatch c ctxDoneAt start obs = Running b \<longrightarrow>
        int (length b) \<le> TxBatchSize c \<and>
        (select_retrieveBatch ctxDoneAt (start + TxBatchTimeout c) ob = SelCtxDone \<longrightarrow>
           retrieveBatch c ctxDoneAt start (obs @ [ob]) = Returned ExitCtxDone [] (obs_at ob)) \<and>
        (select_retrieveBatch ctxDoneAt (start + TxBatchTimeout c) ob = SelTimer \<longrightarrow>
           retrieveBatch c ctxDoneAt start (obs @ [ob]) = Returned ExitTimer b (obs_at ob)) \<and>
        (select_retrieveBatch ctxDoneAt (start + TxBatchTimeout c) ob = SelDefault \<and>
         int (length b) = TxBatchSize c \<and> \<not> WaitFullBatchTimeout c \<longrightarrow>
           retrieveBatch c ctxDoneAt start (obs @ [ob]) = Returned ExitFull b (obs_at ob)) \<and>
        (select_retrieveBatch ctxDoneAt (start + TxBatchTimeout c) ob = SelDefault \<and>
         int (length b) = TxBatchSize c \<and> WaitFullBatchTimeout c \<longrightarrow>
           retrieveBatch c ctxDoneAt start (obs @ [ob]) =
             Returned ExitFullWaited b (start + TxBatchTimeout c))"
  proof (intro allI impI)
    fix b ob assume r: "retrieveBatch c ctxDoneAt start obs = Running b"
    have lt: "obs_at ob < ?tm" if "select_retrieveBatch ctxDoneAt ?tm ob = SelDefault"
      using that by (rule select_cases(3))
    show "int (length b) \<le> TxBatchSize c \<and>
        (select_retrieveBatch ctxDoneAt (start + TxBatchTimeout c) ob = SelCtxDone \<longrightarrow>
           retrieveBatch c ctxDoneAt start (obs @ [ob]) = Returned ExitCtxDone [] (obs_at ob)) \<and>
        (select_retrieveBatch ctxDoneAt (start + TxBatchTimeout c) ob = SelTimer \<longrightarrow>
           retrieveBatch c ctxDoneAt start (obs @ [ob]) = Returned ExitTimer b (obs_at ob)) \<and>
        (select_retrieveBatch ctxDoneAt (start + TxBatchTimeout c) ob = SelDefault \<and>
         int (length b) = TxBatchSize c \<and> \<not> WaitFullBatchTimeout c \<longrightarrow>
           retrieveBatch c ctxDoneAt start (obs @ [ob]) = Returned ExitFull b (obs_at ob)) \<and>
        (select_retrieveBatch ctxDoneAt (start + TxBatchTimeout c) ob = SelDefault \<and>
         int (length b) = TxBatchSize c \<and> WaitFullBatchTimeout c \<longrightarrow>
           retrieveBatch c ctxDoneAt start (obs @ [ob]) =
             Returned ExitFullWaited b (start + TxBatchTimeout c))"
      using p3[OF r] lt by (auto simp: step[OF r] max_def)
  qed
  have D: "(\<exists>ob\<in>set obs. start + TxBatchTimeout c \<le> obs_at ob) \<longrightarrow>
       (\<exists>e b t. retrieveBatch c ctxDoneAt start obs = Returned e b t)"
    using p4 by blast
  show ?thesis by (rule conjI[OF p1 conjI[OF B conjI[OF C D]]])
qed

lemma queue_ok_obs_with: "queue_ok (obs_with now queued)"
  by (auto simp: queue_ok_def obs_with_def)

lemmas rb = retrieveBatch_def select_retrieveBatch_def obs_with_def cfg0_def int32_def Let_def

lemma run_two: "retrieveBatch cfg0 None 0 [obs_with 10 [req0], obs_with 20 [req1]] = Running [req0, req1]"
  by (simp add: rb)

lemma run_one: "retrieveBatch cfg0 None 0 [obs_with 10 [req0]] = Running [req0]"
  by (simp add: rb)

lemma run_one_ctx: "retrieveBatch cfg0 (Some 50) 0 [obs_with 10 [req0]] = Running [req0]"
  by (simp add: rb)

lemma run_one_wait:
  "retrieveBatch (cfg0\<lparr>TxBatchSize := 1, WaitFullBatchTimeout := True\<rparr>) None 0 [obs_with 10 [req0]] =
     Running [req0]"
  by (simp add: rb split: option.splits)

text \<open>
  Claim C6 on five runs: a batch of two filled by two receives and returned at the next
  \<open>select\<close>; the timer; the cancellation; a full batch of one that waits for the timer.
\<close>

theorem retrieveBatch_correct_witness:
  "retrieveBatch cfg0 None 0 [obs_with 10 [req0], obs_with 20 [req1]] = Running [req0, req1] \<and>
   retrieveBatch cfg0 None 0 [obs_with 10 [req0], obs_with 20 [req1], obs_with 30 []] =
     Returned ExitFull [req0, req1] 30 \<and>
   retrieveBatch cfg0 None 0 [obs_with 10 [req0], obs_with 150 []] = Returned ExitTimer [req0] 150 \<and>
   retrieveBatch cfg0 (Some 50) 0 [obs_with 10 [req0], obs_with 60 []] = Returned ExitCtxDone [] 60 \<and>
   retrieveBatch (cfg0\<lparr>TxBatchSize := 1, WaitFullBatchTimeout := True\<rparr>) None 0
     [obs_with 10 [req0], obs_with 20 []] = Returned ExitFullWaited [req0] 100"
proof -
  have size: "0 \<le> TxBatchSize cfg0" "0 \<le> TxBatchSize (cfg0\<lparr>TxBatchSize := 1, WaitFullBatchTimeout := True\<rparr>)"
    by (simp_all add: cfg0_def)
  have q2: "\<forall>ob\<in>set [obs_with 10 [req0], obs_with 20 [req1]]. queue_ok ob"
    by (simp add: queue_ok_obs_with)
  have q1: "\<forall>ob\<in>set [obs_with 10 [req0]]. queue_ok ob"
    by (simp add: queue_ok_obs_with)
  have s30: "select_retrieveBatch None (0 + TxBatchTimeout cfg0) (obs_with 30 []) = SelDefault"
    by (simp add: rb)
  have s150: "select_retrieveBatch None (0 + TxBatchTimeout cfg0) (obs_with 150 []) = SelTimer"
    by (simp add: rb)
  have s60: "select_retrieveBatch (Some 50) (0 + TxBatchTimeout cfg0) (obs_with 60 []) = SelCtxDone"
    by (simp add: rb)
  have s20: "select_retrieveBatch None
      (0 + TxBatchTimeout (cfg0\<lparr>TxBatchSize := 1, WaitFullBatchTimeout := True\<rparr>)) (obs_with 20 []) = SelDefault"
    by (simp add: rb)
  have c: "TxBatchSize cfg0 = 2" "\<not> WaitFullBatchTimeout cfg0" "TxBatchTimeout cfg0 = 100"
    by (simp_all add: cfg0_def)
  show ?thesis
    using retrieveBatch_correct[OF size(1) q2, of None 0, THEN conjunct2, THEN conjunct2, THEN conjunct1,
        rule_format, OF run_two, of "obs_with 30 []"]
      retrieveBatch_correct[OF size(1) q1, of None 0, THEN conjunct2, THEN conjunct2, THEN conjunct1,
        rule_format, OF run_one, of "obs_with 150 []"]
      retrieveBatch_correct[OF size(1) q1, of "Some 50" 0, THEN conjunct2, THEN conjunct2, THEN conjunct1,
        rule_format, OF run_one_ctx, of "obs_with 60 []"]
      retrieveBatch_correct[OF size(2) q1, of None 0, THEN conjunct2, THEN conjunct2, THEN conjunct1,
        rule_format, OF run_one_wait, of "obs_with 20 []"]
      run_two s30 s150 s60 s20 c
    by (simp add: obs_with_def)
qed

text \<open>
  Claim C6 as stated fails. A context cancelled at 50, while the loop waits for the timer
  on a full batch (\<open>WaitFullBatchTimeout\<close> true), does not empty the batch: it is
  returned at 100. A cancellation at 50 that the \<open>select\<close> of 120 finds together with
  the timer may lose to the timer: the batch gathered is returned. And with a negative
  \<open>TxBatchSize\<close> the (empty) batch returned has more than \<open>TxBatchSize\<close> requests.
\<close>

theorem retrieveBatch_cancelled_counterexample:
  "retrieveBatch (cfg0\<lparr>TxBatchSize := 1, WaitFullBatchTimeout := True\<rparr>) (Some 50) 0
     [obs_with 10 [req0], obs_with 20 []] = Returned ExitFullWaited [req0] 100 \<and>
   retrieveBatch cfg0 (Some 50) 0 [obs_with 10 [req0], obs_with 120 []] =
     Returned ExitTimer [req0] 120 \<and>
   retrieveBatch (cfg0\<lparr>TxBatchSize := - 1\<rparr>) None 0 [obs_with 10 [req0], obs_with 150 []] =
     Returned ExitTimer [] 150 \<and>
   TxBatchSize (cfg0\<lparr>TxBatchSize := - 1\<rparr>) < int (length ([]::Request list))"
  by (simp add: rb)

section \<open>Properties of fire\<close>

lemma Acquire_reads_inFlight:
  "inFlight m = inFlight n \<Longrightarrow> latestConfirmedNonce m = latestConfirmedNonce n \<Longrightarrow>
   map_option fst (Acquire m pending) = map_option fst (Acquire n pending)"
  by (simp add: Acquire_def Let_def split: option.splits sum.splits prod.splits)

lemma Acquire_again:
  assumes ok: "noncer_ok n" and a: "Acquire n pending = Some (Inr r, n')"
  shows "map_option fst (Acquire n' pending) = Some (Inr r)"
proof -
  have n': "n' = acquire r n" using Acquire_result(1)[OF ok a] .
  have "map_option fst (Acquire n' pending) = map_option fst (Acquire n pending)"
    unfolding n' by (rule Acquire_reads_inFlight) (simp_all add: acquire_def)
  with a show ?thesis by simp
qed

lemma markState_fields:
  "noncer (markState state ids t) = noncer t"
  "dispatched (markState state ids t) = dispatched t"
  "tracked (markState state ids t) = tracked t"
  "requests (markState state ids t) = requests t"
  "cfg (markState state ids t) = cfg t"
  by (simp_all add: markState_def)

lemma acquired_stays:
  assumes ok: "noncer_ok n" and k: "k \<in> keys (acquired n)" and c: "call c n = Some n'"
    and other: "\<forall>tx. c = CallSetInFlight tx \<longrightarrow> Nonce tx \<noteq> k"
  shows "k \<in> keys (acquired n')"
proof (cases c)
  case (CallAcquire pending)
  with c obtain res where a: "Acquire n pending = Some (res, n')" by auto
  from Acquire_cases[OF ok a] k show ?thesis by (auto simp: acquire_keys)
next
  case (CallSetInFlight tx)
  with other have "Nonce tx \<noteq> k" by simp
  moreover have "ordered (acquired n)" using ok by (simp add: noncer_ok_def)
  ultimately show ?thesis using c k CallSetInFlight by (auto simp: SetInFlight_def keys_Remove)
next
  case (CallRemoveInFlight tx)
  with c k show ?thesis by (auto simp: RemoveInFlight_def)
next
  case (CallRefresh x)
  with c k show ?thesis by (auto simp: setConfirmed_def)
qed

text \<open>
  Claim C5, as amended. Whenever the build or the send returns an error, \<open>fire\<close>
  leaves it in the response's \<open>Error\<close>; the response is dispatched, once, exactly if its
  derived status is \<open>Error\<close> (\<open>Status\<close> is not among the sources; where every response
  with a non-nil error has that status, as the spec has it, the status is \<open>Error\<close> and
  the response is dispatched once); nothing is handed to the tracker; and the Noncer is
  as build and send left it: \<open>fire\<close> applies no Noncer operation. No Noncer operation
  but the \<open>SetInFlight\<close> of that nonce removes a nonce from \<open>acquired\<close>, so the nonce
  acquired for the transaction stays there; and a further \<open>Acquire\<close> returns it
  again, since \<open>Acquire\<close> reads \<open>inFlight\<close> alone.
\<close>

theorem fire_error:
   "(\<forall>tx err n. toBuild \<and> build msgs (noncer t) = ((tx, Some err), n) \<longrightarrow>
       failed_outcome status t (fire status build send t resp toBuild msgs)
         (resp\<lparr>resp_Transaction := tx, resp_Error := Some err\<rparr>) n) \<and>
    (\<forall>tx n1 err n2. toBuild \<and> build msgs (noncer t) = ((tx, None), n1) \<and>
                    send tx n1 = (Some err, n2) \<longrightarrow>
       failed_outcome status t (fire status build send t resp toBuild msgs)
         (resp\<lparr>resp_Transaction := tx, resp_Error := Some err\<rparr>) n2) \<and>
    (\<forall>err n2. \<not> toBuild \<and> send (resp_Transaction resp) (noncer t) = (Some err, n2) \<longrightarrow>
       failed_outcome status t (fire status build send t resp toBuild msgs)
         (resp\<lparr>resp_Error := Some err\<rparr>) n2) \<and>
    (\<forall>k c n n'. noncer_ok n \<and> k \<in> keys (acquired n) \<and> call c n = Some n' \<and>
                (\<forall>tx. c = CallSetInFlight tx \<longrightarrow> Nonce tx \<noteq> k) \<longrightarrow>
       k \<in> keys (acquired n')) \<and>
    (\<forall>n pending r n'. noncer_ok n \<and> Acquire n pending = Some (Inr r, n') \<longrightarrow>
       map_option fst (Acquire n' pending) = Some (Inr r))"
proof (intro conjI allI impI)
  fix tx err n
  assume "toBuild \<and> build msgs (noncer t) = ((tx, Some err), n)"
  then show "failed_outcome status t (fire status build send t resp toBuild msgs)
         (resp\<lparr>resp_Transaction := tx, resp_Error := Some err\<rparr>) n"
    by (simp add: failed_outcome_def fire_def deferred_dispatch_def markState_fields Let_def)
next
  fix tx n1 err n2
  assume "toBuild \<and> build msgs (noncer t) = ((tx, None), n1) \<and> send tx n1 = (Some err, n2)"
  then show "failed_outcome status t (fire status build send t resp toBuild msgs)
         (resp\<lparr>resp_Transaction := tx, resp_Error := Some err\<rparr>) n2"
    by (simp add: failed_outcome_def fire_def fire_send_def deferred_dispatch_def
        markState_fields Let_def)
next
  fix err n2
  assume "\<not> toBuild \<and> send (resp_Transaction resp) (noncer t) = (Some err, n2)"
  then show "failed_outcome status t (fire status build send t resp toBuild msgs)
         (resp\<lparr>resp_Error := Some err\<rparr>) n2"
    by (simp add: failed_outcome_def fire_def fire_send_def deferred_dispatch_def
        markState_fields Let_def)
next
  fix k c n n'
  assume "noncer_ok n \<and> k \<in> keys (acquired n) \<and> call c n = Some n' \<and>
          (\<forall>tx. c = CallSetInFlight tx \<longrightarrow> Nonce tx \<noteq> k)"
  then show "k \<in> keys (acquired n')" using acquired_stays by blast
next
  fix n pending r n'
  assume "noncer_ok n \<and> Acquire n pending = Some (Inr r, n')"
  then show "map_option fst (Acquire n' pending) = Some (Inr r)" using Acquire_again by blast
qed

lemma build0_txr0: "build0 [] (noncer txr0) = ((None, Some (ErrorString ''signing failed'')), noncer_of [7] [] 0)"
  by (simp add: build0_def txr0_def ev)

lemma build1_txr0: "build1 [] (noncer txr0) = ((Some (tx0\<lparr>tx_Nonce := 7\<rparr>), None), noncer_of [7] [] 0)"
  by (simp add: build1_def txr0_def ev)

lemma status0_rule: "\<forall>r. resp_Error r \<noteq> None \<longrightarrow> status0 r = StatusError"
  by (simp add: status0_def)

text \<open>
  Claim C5 on a build that acquires nonce 7 and fails to sign, and on a build that
  succeeds with nonce 7 followed by a send that fails.
\<close>

theorem fire_error_witness:
  "snd (fire status0 build0 send0 txr0 resp0 True []) =
     resp0\<lparr>resp_Error := Some (ErrorString ''signing failed'')\<rparr> \<and>
   status0 (snd (fire status0 build0 send0 txr0 resp0 True [])) = StatusError \<and>
   dispatched (fst (fire status0 build0 send0 txr0 resp0 True [])) =
     [resp0\<lparr>resp_Error := Some (ErrorString ''signing failed'')\<rparr>] \<and>
   tracked (fst (fire status0 build0 send0 txr0 resp0 True [])) = [] \<and>
   noncer (fst (fire status0 build0 send0 txr0 resp0 True [])) = noncer_of [7] [] 0 \<and>
   snd (fire status0 build1 send0 txr0 resp0 True []) =
     resp0\<lparr>resp_Transaction := Some (tx0\<lparr>tx_Nonce := 7\<rparr>),
           resp_Error := Some (ErrorString ''insufficient funds'')\<rparr> \<and>
   dispatched (fst (fire status0 build1 send0 txr0 resp0 True [])) =
     [resp0\<lparr>resp_Transaction := Some (tx0\<lparr>tx_Nonce := 7\<rparr>),
            resp_Error := Some (ErrorString ''insufficient funds'')\<rparr>] \<and>
   tracked (fst (fire status0 build1 send0 txr0 resp0 True [])) = [] \<and>
   noncer (fst (fire status0 build1 send0 txr0 resp0 True [])) = noncer_of [7] [] 0"
proof -
  have s: "send0 (Some (tx0\<lparr>tx_Nonce := 7\<rparr>)) (noncer_of [7] [] 0) =
           (Some (ErrorString ''insufficient funds''), noncer_of [7] [] 0)"
    by (simp add: send0_def)
  have d: "dispatched txr0 = []" "tracked txr0 = []" by (simp_all add: txr0_def)
  have r: "resp0\<lparr>resp_Transaction := None, resp_Error := Some (ErrorString ''signing failed'')\<rparr> =
           resp0\<lparr>resp_Error := Some (ErrorString ''signing failed'')\<rparr>"
    by (simp add: resp0_def)
  show ?thesis
    using fire_error[where toBuild = True and build = build0 and msgs = "[]" and t = txr0
          and status = status0 and send = send0 and resp = resp0]
      fire_error[where toBuild = True and build = build1 and msgs = "[]" and t = txr0
          and status = status0 and send = send0 and resp = resp0]
      build0_txr0 build1_txr0 s d r status0_rule
    by (simp add: failed_outcome_def Let_def)
qed

text \<open>
  Claim C5 as stated fails: in both runs the nonce 7, acquired for the transaction, is
  still a key of \<open>acquired\<close> when \<open>fire\<close> has returned with the error.
\<close>

theorem fire_keeps_nonce_counterexample:
  "keys (acquired (noncer txr0)) = {} \<and>
   build0 [] (noncer txr0) = ((None, Some (ErrorString ''signing failed'')), noncer_of [7] [] 0) \<and>
   resp_Error (snd (fire status0 build0 send0 txr0 resp0 True [])) =
     Some (ErrorString ''signing failed'') \<and>
   keys (acquired (noncer (fst (fire status0 build0 send0 txr0 resp0 True [])))) = {7} \<and>
   build1 [] (noncer txr0) = ((Some (tx0\<lparr>tx_Nonce := 7\<rparr>), None), noncer_of [7] [] 0) \<and>
   resp_Error (snd (fire status0 build1 send0 txr0 resp0 True [])) =
     Some (ErrorString ''insufficient funds'') \<and>
   keys (acquired (noncer (fst (fire status0 build1 send0 txr0 resp0 True [])))) = {7}"
  using build0_txr0 build1_txr0
  by (simp add: fire_def fire_send_def deferred_dispatch_def markState_fields Let_def send0_def
      status0_def resp0_def keys_def noncer_of_def txr0_def)

end
